theory Spec2Isabelle
  imports Main "HOL-Library.Stream"
begin

section \<open>JavaScript values used by QueryHandler.ts\<close>

text \<open>
  A JavaScript \<^verbatim>\<open>Error\<close> carries its message. Everything QueryHandler.ts throws is a
  plain \<^verbatim>\<open>new Error(message)\<close>; a function that may throw returns \<open>error + 'a\<close>.
\<close>

datatype error = Error string

subsection \<open>Strings and the two regular expressions\<close>

text \<open>The character class \<^verbatim>\<open>[a-zA-Z]\<close>.\<close>

definition is_letter :: "char \<Rightarrow> bool" where
  "is_letter c =
     (let n = (of_char c :: nat) in (97 \<le> n \<and> n \<le> 122) \<or> (65 \<le> n \<and> n \<le> 90))"

text \<open>
  \<^verbatim>\<open>/^[a-zA-Z]+$/.test(name)\<close>: the whole string is a non-empty run of letters (without
  the \<^verbatim>\<open>m\<close> flag, \<^verbatim>\<open>$\<close> matches at the very end of the input only).
\<close>

definition isValidName :: "string \<Rightarrow> bool" where
  "isValidName name = (name \<noteq> [] \<and> list_all is_letter name)"

text \<open>
  \<^verbatim>\<open>/^[a-zA-Z]+\//.test(selector)\<close>: a non-empty run of letters at the start, directly
  followed by a slash. The greedy run is maximal, and giving letters back cannot help,
  because the character after a shorter run is a letter and not a slash.
\<close>

definition hasCustomQueryHandler :: "string \<Rightarrow> bool" where
  "hasCustomQueryHandler selector =
     (takeWhile is_letter selector \<noteq> [] \<and>
      (case dropWhile is_letter selector of [] \<Rightarrow> False | c # _ \<Rightarrow> c = CHR ''/''))"

text \<open>\<^verbatim>\<open>String.prototype.indexOf\<close> with a one-character needle: \<open>-1\<close> when absent.\<close>

fun indexOf :: "string \<Rightarrow> char \<Rightarrow> int" where
  "indexOf [] c = -1"
| "indexOf (x # xs) c =
     (if x = c then 0 else (let i = indexOf xs c in if i < 0 then -1 else i + 1))"

text \<open>
  \<^verbatim>\<open>String.prototype.slice(start, end)\<close>: a negative index counts from the end, both
  indices are clamped to the string, and an empty string results when they cross.
\<close>

definition clamp_index :: "string \<Rightarrow> int \<Rightarrow> nat" where
  "clamp_index s i =
     (let len = int (length s) in nat (if i < 0 then max (len + i) 0 else min i len))"

definition slice :: "string \<Rightarrow> int \<Rightarrow> int \<Rightarrow> string" where
  "slice s start end =
     (let from = clamp_index s start; to = clamp_index s end in take (to - from) (drop from s))"

text \<open>\<^verbatim>\<open>slice(start)\<close>: the end defaults to the length of the string.\<close>

definition slice_from :: "string \<Rightarrow> int \<Rightarrow> string" where
  "slice_from s start = slice s start (int (length s))"

subsection \<open>The JavaScript Map\<close>

text \<open>
  A \<^verbatim>\<open>Map\<close> iterates in insertion order, so it is an association list: \<^verbatim>\<open>set\<close> on a
  present key replaces the value in place, \<^verbatim>\<open>set\<close> on a new key appends.
\<close>

type_synonym ('k, 'v) js_map = "('k \<times> 'v) list"

definition map_get :: "('k, 'v) js_map \<Rightarrow> 'k \<Rightarrow> 'v option" where
  "map_get m k = map_of m k"

definition map_has :: "('k, 'v) js_map \<Rightarrow> 'k \<Rightarrow> bool" where
  "map_has m k = (map_of m k \<noteq> None)"

fun map_set :: "('k, 'v) js_map \<Rightarrow> 'k \<Rightarrow> 'v \<Rightarrow> ('k, 'v) js_map" where
  "map_set [] k v = [(k, v)]"
| "map_set ((k', v') # m) k v =
     (if k' = k then (k, v) # m else (k', v') # map_set m k v)"

definition map_delete :: "('k, 'v) js_map \<Rightarrow> 'k \<Rightarrow> ('k, 'v) js_map" where
  "map_delete m k = filter (\<lambda>entry. fst entry \<noteq> k) m"

definition map_keys :: "('k, 'v) js_map \<Rightarrow> 'k list" where
  "map_keys m = map fst m"

section \<open>The page and its remote handles\<close>

text \<open>
  What a page-side expression evaluates to, as far as the controller can tell the
  results apart: a DOM node, or something that is not one.
\<close>

datatype js_value = Undefined | Null | DomNode nat | Primitive nat

text \<open>
  An object living in the page. An iterable is described by the values its iterator
  produces: the stream of results of \<^verbatim>\<open>iterator.next().value\<close>, which is \<open>Undefined\<close>
  for ever once the iterator is done. An iterator holds what it has not produced yet.
\<close>

datatype remote_object =
    Value js_value
  | IterableObj "js_value stream"
  | IteratorObj "js_value stream"

type_synonym handle = nat

text \<open>
  The controller's view of the page: the object behind each handle, the next handle
  to give out, the log of \<^verbatim>\<open>dispose\<close> calls in order, the number of \<^verbatim>\<open>evaluateHandle\<close>
  round trips made, and how many more round trips the execution context survives
  (\<open>None\<close>: it is never destroyed).
\<close>

record world =
  objects :: "handle \<rightharpoonup> remote_object"
  next_handle :: handle
  released :: "handle list"
  round_trips :: nat
  calls_left :: "nat option"

text \<open>
  A function shipped to the page and applied to the object behind a handle: it throws,
  or returns its result together with the receiver as the call leaves it.
\<close>

type_synonym page_fn = "remote_object \<Rightarrow> error + (remote_object \<times> remote_object)"

text \<open>
  The raw functions of a \<^verbatim>\<open>CustomQueryHandler\<close>, \<^verbatim>\<open>(element, selector) => ...\<close>. They
  run in the page and only read it.
\<close>

type_synonym raw_fn = "remote_object \<Rightarrow> string \<Rightarrow> error + remote_object"

definition call_raw :: "raw_fn \<Rightarrow> string \<Rightarrow> page_fn" where
  "call_raw f selector element =
     (case f element selector of Inl e \<Rightarrow> Inl e | Inr result \<Rightarrow> Inr (result, element))"

text \<open>\<^verbatim>\<open>iterable => iterable[Symbol.iterator]()\<close>; a value that is not iterable throws.\<close>

definition get_iterator :: page_fn where
  "get_iterator iterable =
     (case iterable of
        IterableObj s \<Rightarrow> Inr (IteratorObj s, iterable)
      | IteratorObj s \<Rightarrow> Inr (IteratorObj s, iterable)
      | Value v \<Rightarrow> Inl (Error ''iterable[Symbol.iterator] is not a function''))"

text \<open>\<^verbatim>\<open>iterator => iterator.next().value\<close>: the iterator moves on by one value.\<close>

definition next_value :: page_fn where
  "next_value iterator =
     (case iterator of
        IteratorObj s \<Rightarrow> Inr (Value (shd s), IteratorObj (stl s))
      | _ \<Rightarrow> Inl (Error ''iterator.next is not a function''))"

text \<open>
  Modelled from the spec: the RemoteExecutor (\<^verbatim>\<open>JSHandle.evaluateHandle\<close>,
  \<^verbatim>\<open>JSHandle.dispose\<close> and \<^verbatim>\<open>JSHandle.asElement\<close>; JSHandle.ts and ElementHandle.ts are
  not among the sources). \<^verbatim>\<open>execute(handle, fn, ...args)\<close> runs the function in the page
  and returns a new handle wrapping the result; it fails when the execution context is
  gone, when the handle was disposed, or when the function throws in the page.
\<close>

definition evaluateHandle :: "handle \<Rightarrow> page_fn \<Rightarrow> world \<Rightarrow> (error + handle) \<times> world" where
  "evaluateHandle h fn w =
     (if calls_left w = Some 0 then (Inl (Error ''Execution context was destroyed''), w)
      else if h \<in> set (released w) then (Inl (Error ''JSHandle is disposed!''), w)
      else
        (case objects w h of
           None \<Rightarrow> (Inl (Error ''JSHandle is disposed!''), w)
         | Some obj \<Rightarrow>
             (let w1 = w\<lparr>round_trips := Suc (round_trips w),
                          calls_left := map_option (\<lambda>n. n - 1) (calls_left w)\<rparr>
              in case fn obj of
                   Inl e \<Rightarrow> (Inl e, w1)
                 | Inr (result, obj') \<Rightarrow>
                     (Inr (next_handle w),
                      w1\<lparr>objects := (objects w)(h \<mapsto> obj', next_handle w \<mapsto> result),
                         next_handle := Suc (next_handle w)\<rparr>))))"

text \<open>
  Modelled from the spec: \<^verbatim>\<open>dispose(handle) -> void\<close> releases the remote reference; it
  never fails. Every call is logged, so that "disposed exactly once" can be counted.
\<close>

definition dispose :: "handle \<Rightarrow> world \<Rightarrow> world" where
  "dispose h w = w\<lparr>released := released w @ [h]\<rparr>"

text \<open>
  Modelled from the spec: \<^verbatim>\<open>asElement(handle) -> ElementRef|null\<close> classifies a handle
  as a DOM element or not; the element handle it returns is the handle itself.
\<close>

fun is_node :: "js_value \<Rightarrow> bool" where
  "is_node (DomNode n) = True"
| "is_node v = False"

fun is_element :: "remote_object \<Rightarrow> bool" where
  "is_element (Value v) = is_node v"
| "is_element obj = False"

definition asElement :: "handle \<Rightarrow> world \<Rightarrow> handle option" where
  "asElement h w =
     (case objects w h of
        None \<Rightarrow> None
      | Some obj \<Rightarrow> if is_element obj then Some h else None)"

text \<open>
  A world is well formed when every handle that was disposed had been given out
  before: the next handle is, in particular, not disposed yet.
\<close>

definition wf_world :: "world \<Rightarrow> bool" where
  "wf_world w = (\<forall>h\<in>set (released w). h < next_handle w)"

section \<open>createInternalQueryHandler\<close>

text \<open>
  \<^verbatim>\<open>CustomQueryHandler\<close>: both functions are optional. \<^verbatim>\<open>if (handler.queryOne)\<close> tests
  that the field holds a function, which is \<open>Some\<close> here.
\<close>

record CustomQueryHandler =
  raw_queryOne :: "raw_fn option"
  raw_queryAll :: "raw_fn option"

text \<open>
  The async generator object made by \<^verbatim>\<open>generate(iteratorHandle)\<close>: the handle it was
  given and where its body stands. It is suspended before its first statement, or at the
  \<^verbatim>\<open>yield\<close> with the locals \<^verbatim>\<open>nextHandle\<close> and \<^verbatim>\<open>elementHandle\<close>, or it has completed.
\<close>

datatype generator_state =
    SuspendedStart
  | SuspendedYield handle handle
  | Completed

record generator =
  gen_handle :: handle
  gen_state :: generator_state

text \<open>
  \<^verbatim>\<open>WaitForSelectorOptions\<close> and \<^verbatim>\<open>DOMWorld\<close> come from DOMWorld.ts, which is not among the
  sources: the options stay opaque, and a \<^verbatim>\<open>DOMWorld\<close> is the one method the adapter
  calls on it, \<^verbatim>\<open>_waitForSelectorInPage(queryOne, selector, options)\<close>.
\<close>

typedecl WaitForSelectorOptions

record DOMWorld =
  waitForSelectorInPage ::
    "raw_fn \<Rightarrow> string \<Rightarrow> WaitForSelectorOptions \<Rightarrow> world \<Rightarrow> (error + handle option) \<times> world"

text \<open>\<^verbatim>\<open>InternalQueryHandler\<close>: four optional operations.\<close>

record InternalQueryHandler =
  queryOne :: "(handle \<Rightarrow> string \<Rightarrow> world \<Rightarrow> (error + handle option) \<times> world) option"
  queryAll :: "(handle \<Rightarrow> string \<Rightarrow> world \<Rightarrow> (error + generator) \<times> world) option"
  waitFor ::
    "(DOMWorld \<Rightarrow> string \<Rightarrow> WaitForSelectorOptions \<Rightarrow> world \<Rightarrow> (error + handle option) \<times> world)
       option"
  queryAllArray :: "(handle \<Rightarrow> string \<Rightarrow> world \<Rightarrow> (error + handle) \<times> world) option"

text \<open>The body of \<^verbatim>\<open>internalHandler.queryOne\<close> (lines 70 to 78).\<close>

definition internal_queryOne ::
  "raw_fn \<Rightarrow> handle \<Rightarrow> string \<Rightarrow> world \<Rightarrow> (error + handle option) \<times> world" where
  "internal_queryOne queryOne_raw element selector w =
     (case evaluateHandle element (call_raw queryOne_raw selector) w of
        (Inl e, w1) \<Rightarrow> (Inl e, w1)
      | (Inr jsHandle, w1) \<Rightarrow>
          (case asElement jsHandle w1 of
             Some elementHandle \<Rightarrow> (Inr (Some elementHandle), w1)
           | None \<Rightarrow> (Inr None, dispose jsHandle w1)))"

text \<open>The body of \<^verbatim>\<open>internalHandler.waitFor\<close> (lines 79 to 85).\<close>

definition internal_waitFor ::
  "raw_fn \<Rightarrow> DOMWorld \<Rightarrow> string \<Rightarrow> WaitForSelectorOptions \<Rightarrow> world
     \<Rightarrow> (error + handle option) \<times> world" where
  "internal_waitFor queryOne_raw domWorld selector options =
     waitForSelectorInPage domWorld queryOne_raw selector options"

text \<open>\<^verbatim>\<open>generate(handle)\<close>: calling an async generator function runs none of its body.\<close>

definition generate :: "handle \<Rightarrow> generator" where
  "generate h = \<lparr>gen_handle = h, gen_state = SuspendedStart\<rparr>"

text \<open>
  One pass through the body of the \<^verbatim>\<open>do ... while\<close> loop (lines 99 to 107), from its
  first statement to the next suspension or to the end of the generator. A probe that
  is an element suspends the generator at the \<^verbatim>\<open>yield\<close>. A probe that is not an element
  is disposed, the loop condition fails and the iterator handle is disposed (line 108).
  An exception leaves the generator completed; there is no \<^verbatim>\<open>try\<close> in the body.
\<close>

definition loop_body :: "generator \<Rightarrow> world \<Rightarrow> (error + handle option) \<times> generator \<times> world" where
  "loop_body g w =
     (case evaluateHandle (gen_handle g) next_value w of
        (Inl e, w1) \<Rightarrow> (Inl e, g\<lparr>gen_state := Completed\<rparr>, w1)
      | (Inr nextHandle, w1) \<Rightarrow>
          (case asElement nextHandle w1 of
             Some elementHandle \<Rightarrow>
               (Inr (Some elementHandle),
                g\<lparr>gen_state := SuspendedYield nextHandle elementHandle\<rparr>, w1)
           | None \<Rightarrow>
               (Inr None, g\<lparr>gen_state := Completed\<rparr>,
                dispose (gen_handle g) (dispose nextHandle w1))))"

text \<open>
  \<^verbatim>\<open>generator.next()\<close>. Resuming at the \<^verbatim>\<open>yield\<close> disposes \<^verbatim>\<open>nextHandle\<close> (line 106); the
  loop condition holds, since only a non-null \<^verbatim>\<open>elementHandle\<close> is yielded, and the body
  runs again. A completed generator reports that it is done and does nothing.
\<close>

definition gen_next :: "generator \<Rightarrow> world \<Rightarrow> (error + handle option) \<times> generator \<times> world" where
  "gen_next g w =
     (case gen_state g of
        SuspendedStart \<Rightarrow> loop_body g w
      | SuspendedYield nextHandle elementHandle \<Rightarrow> loop_body g (dispose nextHandle w)
      | Completed \<Rightarrow> (Inr None, g, w))"

text \<open>
  \<^verbatim>\<open>generator.return()\<close>, which \<^verbatim>\<open>for await\<close> calls when its body leaves the loop early.
  The generator completes where it is suspended and runs its enclosing \<^verbatim>\<open>finally\<close>
  blocks; \<^verbatim>\<open>generate\<close> has none, so nothing else happens.
\<close>

definition gen_return :: "generator \<Rightarrow> world \<Rightarrow> generator \<times> world" where
  "gen_return g w = (g\<lparr>gen_state := Completed\<rparr>, w)"

text \<open>The body of \<^verbatim>\<open>internalHandler.queryAll\<close> (lines 90 to 111).\<close>

definition internal_queryAll ::
  "raw_fn \<Rightarrow> handle \<Rightarrow> string \<Rightarrow> world \<Rightarrow> (error + generator) \<times> world" where
  "internal_queryAll queryAll_raw element selector w =
     (case evaluateHandle element (call_raw queryAll_raw selector) w of
        (Inl e, w1) \<Rightarrow> (Inl e, w1)
      | (Inr iterableHandle, w1) \<Rightarrow>
          (case evaluateHandle iterableHandle get_iterator w1 of
             (Inl e, w2) \<Rightarrow> (Inl e, w2)
           | (Inr iteratorHandle, w2) \<Rightarrow>
               (Inr (generate iteratorHandle), dispose iterableHandle w2)))"

text \<open>The body of \<^verbatim>\<open>internalHandler.queryAllArray\<close> (lines 112 to 114).\<close>

definition internal_queryAllArray ::
  "raw_fn \<Rightarrow> handle \<Rightarrow> string \<Rightarrow> world \<Rightarrow> (error + handle) \<times> world" where
  "internal_queryAllArray queryAll_raw element selector w =
     evaluateHandle element (call_raw queryAll_raw selector) w"

definition createInternalQueryHandler :: "CustomQueryHandler \<Rightarrow> InternalQueryHandler" where
  "createInternalQueryHandler handler =
     (let internalHandler0 =
            \<lparr>queryOne = None, queryAll = None, waitFor = None, queryAllArray = None\<rparr>;
          internalHandler1 =
            (case raw_queryOne handler of
               None \<Rightarrow> internalHandler0
             | Some q \<Rightarrow>
                 internalHandler0\<lparr>queryOne := Some (internal_queryOne q),
                                  waitFor := Some (internal_waitFor q)\<rparr>)
      in case raw_queryAll handler of
           None \<Rightarrow> internalHandler1
         | Some q \<Rightarrow>
             internalHandler1\<lparr>queryAll := Some (internal_queryAll q),
                              queryAllArray := Some (internal_queryAllArray q)\<rparr>)"

subsection \<open>Consumers of the lazy sequence\<close>

text \<open>
  \<^verbatim>\<open>Iterable.first\<close> of the test utilities: \<^verbatim>\<open>for await (const value of iterable) return
  value\<close>. Leaving the loop from its body closes the iterator with \<^verbatim>\<open>return()\<close>.
\<close>

definition Iterable_first :: "generator \<Rightarrow> world \<Rightarrow> (error + handle option) \<times> generator \<times> world" where
  "Iterable_first g w =
     (case gen_next g w of
        (Inl e, g1, w1) \<Rightarrow> (Inl e, g1, w1)
      | (Inr None, g1, w1) \<Rightarrow> (Inr None, g1, w1)
      | (Inr (Some v), g1, w1) \<Rightarrow> (case gen_return g1 w1 of (g2, w2) \<Rightarrow> (Inr (Some v), g2, w2)))"

text \<open>
  The \<^verbatim>\<open>for await\<close> loop of \<^verbatim>\<open>Iterable.map\<close> and \<^verbatim>\<open>Iterable.reduce\<close>, which pulls until the
  sequence is done, observed for its first \<open>n\<close> pulls: the handles yielded so far, and the
  generator and the world as the \<open>n\<close>-th pull leaves them.
\<close>

fun pulls :: "nat \<Rightarrow> generator \<Rightarrow> world \<Rightarrow> (error + handle list) \<times> generator \<times> world" where
  "pulls 0 g w = (Inr [], g, w)"
| "pulls (Suc n) g w =
     (case gen_next g w of
        (Inl e, g1, w1) \<Rightarrow> (Inl e, g1, w1)
      | (Inr None, g1, w1) \<Rightarrow> (Inr [], g1, w1)
      | (Inr (Some v), g1, w1) \<Rightarrow>
          (case pulls n g1 w1 of
             (Inl e, r) \<Rightarrow> (Inl e, r)
           | (Inr vs, r) \<Rightarrow> (Inr (v # vs), r)))"

section \<open>The registry\<close>

text \<open>
  What the module takes from outside: \<^verbatim>\<open>ariaHandler\<close> is imported from
  AriaQueryHandler.ts, which is not among the sources, and the raw functions of the
  built-in handlers run in the page against its DOM (\<^verbatim>\<open>instanceof\<close>, \<^verbatim>\<open>querySelector\<close>,
  \<^verbatim>\<open>querySelectorAll\<close>, and the tree walk of the pierce handler, taken whole).
\<close>

record page_env =
  ariaHandler :: InternalQueryHandler
  isElementOrDocument :: "remote_object \<Rightarrow> bool"
  querySelector :: raw_fn
  querySelectorAll :: raw_fn
  pierce_queryOne :: raw_fn
  pierce_queryAll :: raw_fn

text \<open>\<^verbatim>\<open>_defaultHandler\<close> (lines 120 to 133); the empty array produces nothing.\<close>

definition defaultHandler :: "page_env \<Rightarrow> InternalQueryHandler" where
  "defaultHandler env =
     createInternalQueryHandler
       \<lparr>raw_queryOne = Some (\<lambda>element selector.
          if isElementOrDocument env element then querySelector env element selector
          else Inr (Value Null)),
        raw_queryAll = Some (\<lambda>element selector.
          if isElementOrDocument env element then querySelectorAll env element selector
          else Inr (IterableObj (sconst Undefined)))\<rparr>"

definition pierceHandler :: "page_env \<Rightarrow> InternalQueryHandler" where
  "pierceHandler env =
     createInternalQueryHandler
       \<lparr>raw_queryOne = Some (pierce_queryOne env), raw_queryAll = Some (pierce_queryAll env)\<rparr>"

type_synonym registry = "(string, InternalQueryHandler) js_map"

definition builtInHandlers :: "page_env \<Rightarrow> registry" where
  "builtInHandlers env = [(''aria'', ariaHandler env), (''pierce'', pierceHandler env)]"

text \<open>\<^verbatim>\<open>const queryHandlers = new Map(builtInHandlers)\<close>: the registry as the module loads.\<close>

definition initial_queryHandlers :: "page_env \<Rightarrow> registry" where
  "initial_queryHandlers env = builtInHandlers env"

text \<open>
  \<^verbatim>\<open>_registerCustomQueryHandler\<close>. The registry is the module's state: each operation
  takes it and returns it. \<^verbatim>\<open>queryHandlers.get(name)\<close> is truthy exactly when the name is
  present, every value of the map being an object.
\<close>

definition registerCustomQueryHandler ::
  "string \<Rightarrow> CustomQueryHandler \<Rightarrow> registry \<Rightarrow> (error + unit) \<times> registry" where
  "registerCustomQueryHandler name handler queryHandlers =
     (if map_get queryHandlers name \<noteq> None then
        (Inl (Error (''A custom query handler named \"'' @ name @ ''\" already exists'')),
         queryHandlers)
      else if \<not> isValidName name then
        (Inl (Error ''Custom query handler names may only contain [a-zA-Z]''), queryHandlers)
      else
        (Inr (), map_set queryHandlers name (createInternalQueryHandler handler)))"

definition unregisterCustomQueryHandler :: "page_env \<Rightarrow> string \<Rightarrow> registry \<Rightarrow> registry" where
  "unregisterCustomQueryHandler env name queryHandlers =
     (if map_has queryHandlers name \<and> \<not> map_has (builtInHandlers env) name
      then map_delete queryHandlers name else queryHandlers)"

definition customQueryHandlerNames :: "page_env \<Rightarrow> registry \<Rightarrow> string list" where
  "customQueryHandlerNames env queryHandlers =
     filter (\<lambda>name. \<not> map_has (builtInHandlers env) name) (map_keys queryHandlers)"

text \<open>
  \<^verbatim>\<open>_clearCustomQueryHandlers\<close>: \<^verbatim>\<open>forEach\<close> walks the array of names taken before the
  first removal.
\<close>

definition clearCustomQueryHandlers :: "page_env \<Rightarrow> registry \<Rightarrow> registry" where
  "clearCustomQueryHandlers env queryHandlers =
     foldl (\<lambda>q name. unregisterCustomQueryHandler env name q) queryHandlers
       (customQueryHandlerNames env queryHandlers)"

section \<open>Resolving a selector\<close>

record resolved =
  updatedSelector :: string
  queryHandler :: InternalQueryHandler

definition getQueryHandlerAndSelector ::
  "page_env \<Rightarrow> string \<Rightarrow> registry \<Rightarrow> error + resolved" where
  "getQueryHandlerAndSelector env selector queryHandlers =
     (if \<not> hasCustomQueryHandler selector then
        Inr \<lparr>updatedSelector = selector, queryHandler = defaultHandler env\<rparr>
      else
        (let index = indexOf selector CHR ''/'';
             name = slice selector 0 index;
             updatedSelector' = slice_from selector (index + 1)
         in case map_get queryHandlers name of
              None \<Rightarrow>
                Inl (Error (''Query set to use \"'' @ name @
                            ''\", but no query handler of that name was found''))
            | Some queryHandler' \<Rightarrow>
                Inr \<lparr>updatedSelector = updatedSelector', queryHandler = queryHandler'\<rparr>))"

section \<open>Histories of the registry\<close>

text \<open>
  The registry changes only through the three exported operations. A history is the list
  of calls made since the module was loaded; a failed registration leaves the registry
  as it was, which is the second component of its result.
\<close>

datatype call = Register string CustomQueryHandler | Unregister string | Clear

fun perform :: "page_env \<Rightarrow> registry \<Rightarrow> call \<Rightarrow> registry" where
  "perform env q (Register name handler) = snd (registerCustomQueryHandler name handler q)"
| "perform env q (Unregister name) = unregisterCustomQueryHandler env name q"
| "perform env q Clear = clearCustomQueryHandlers env q"

definition after :: "page_env \<Rightarrow> call list \<Rightarrow> registry" where
  "after env calls = foldl (perform env) (initial_queryHandlers env) calls"

text \<open>
  What every history keeps true: the two built-in entries stay in front, no name
  occurs twice, and every name is a valid one.
\<close>

definition registry_inv :: "page_env \<Rightarrow> registry \<Rightarrow> bool" where
  "registry_inv env q =
     (take 2 q = builtInHandlers env \<and> distinct (map_keys q) \<and> list_all isValidName (map_keys q))"

text \<open>
  The custom names in the order of their registration, told without the map: a
  registration appends a name that is valid, not a built-in name and not registered yet;
  a removal drops the name; clearing drops them all.
\<close>

fun registration_order :: "string list \<Rightarrow> call list \<Rightarrow> string list" where
  "registration_order names [] = names"
| "registration_order names (Register name handler # calls) =
     registration_order
       (if isValidName name \<and> name \<notin> set names \<and> name \<notin> {''aria'', ''pierce''}
        then names @ [name] else names) calls"
| "registration_order names (Unregister name # calls) =
     registration_order (filter (\<lambda>n. n \<noteq> name) names) calls"
| "registration_order names (Clear # calls) = registration_order [] calls"

section \<open>Invariant and measures of the bridge\<close>

text \<open>
  While the sequence is being read, the iterator handle \<open>ih\<close> is live and holds what
  the page iterator has not produced yet, and a generator suspended at its
  \<^verbatim>\<open>yield\<close> holds one live handle in both of its locals.
\<close>

definition bridge_inv :: "handle \<Rightarrow> generator \<Rightarrow> world \<Rightarrow> js_value stream \<Rightarrow> bool" where
  "bridge_inv ih g w s =
     (calls_left w = None \<and> wf_world w \<and> ih < next_handle w \<and> ih \<notin> set (released w) \<and>
      objects w ih = Some (IteratorObj s) \<and> gen_handle g = ih \<and>
      (gen_state g = SuspendedStart \<or>
       (\<exists>p. gen_state g = SuspendedYield p p \<and> p < next_handle w \<and> p \<noteq> ih \<and>
            p \<notin> set (released w))))"

text \<open>
  The world as \<^verbatim>\<open>next()\<close> finds it when the loop body starts: resuming at the \<^verbatim>\<open>yield\<close> has
  disposed \<^verbatim>\<open>nextHandle\<close>.
\<close>

definition resumed :: "generator \<Rightarrow> world \<Rightarrow> world" where
  "resumed g w =
     (case gen_state g of SuspendedYield nextHandle elementHandle \<Rightarrow> dispose nextHandle w | _ \<Rightarrow> w)"

text \<open>
  Out of \<open>m\<close> pulls on an iterator producing \<open>s\<close>, how many yield a handle, and how many
  advance the iterator: the leading nodes among the first \<open>m\<close> values, and one more for
  the value that ends the sequence when it is reached.
\<close>

definition yielded :: "nat \<Rightarrow> js_value stream \<Rightarrow> nat" where
  "yielded m s = length (takeWhile is_node (stake m s))"

definition probes :: "nat \<Rightarrow> js_value stream \<Rightarrow> nat" where
  "probes m s = min m (Suc (yielded m s))"

text \<open>
  The state \<open>m\<close> pulls lead to, from a generator \<open>g\<close> and a world \<open>w\<close> in which the
  iterator still has \<open>s\<close> to produce.
\<close>

definition post ::
  "handle \<Rightarrow> generator \<Rightarrow> world \<Rightarrow> js_value stream \<Rightarrow> nat \<Rightarrow> generator \<Rightarrow> world \<Rightarrow> bool" where
  "post ih g w s m g' w' =
     ((\<forall>i<yielded m s.
         objects w' (next_handle w + i) = Some (Value (s !! i)) \<and>
         count_list (released w') (next_handle w + i) = (if i + 2 \<le> m then 1 else 0)) \<and>
      objects w' ih = Some (IteratorObj (sdrop (probes m s) s)) \<and>
      round_trips w' = round_trips w + probes m s \<and>
      (yielded m s < m \<longrightarrow>
         gen_state g' = Completed \<and>
         objects w' (next_handle w + yielded m s) = Some (Value (s !! yielded m s)) \<and>
         count_list (released w') (next_handle w + yielded m s) = 1 \<and>
         count_list (released w') ih = 1) \<and>
      (yielded m s = m \<longrightarrow> count_list (released w') ih = 0) \<and>
      (\<forall>p. gen_state g = SuspendedYield p p \<longrightarrow>
         count_list (released w') p = (if m = 0 then 0 else 1)) \<and>
      (\<forall>h<next_handle w. h \<noteq> ih \<longrightarrow> objects w' h = objects w h) \<and>
      (\<forall>h<next_handle w. h \<noteq> ih \<and> gen_state g \<noteq> SuspendedYield h h \<longrightarrow>
         count_list (released w') h = count_list (released w) h))"

section \<open>Example page and handlers\<close>

definition example_env :: page_env where
  "example_env =
     \<lparr>ariaHandler = \<lparr>queryOne = None, queryAll = None, waitFor = None, queryAllArray = None\<rparr>,
      isElementOrDocument = (\<lambda>element. True),
      querySelector = (\<lambda>element selector. Inr (Value Null)),
      querySelectorAll = (\<lambda>element selector. Inr (IterableObj (sconst Undefined))),
      pierce_queryOne = (\<lambda>element selector. Inr (Value Null)),
      pierce_queryAll = (\<lambda>element selector. Inr (IterableObj (sconst Undefined)))\<rparr>"

definition example_handler :: CustomQueryHandler where
  "example_handler =
     \<lparr>raw_queryOne = Some (\<lambda>element selector. Inr (Value (DomNode 7))), raw_queryAll = None\<rparr>"

definition example_world :: world where
  "example_world =
     \<lparr>objects = [0 \<mapsto> Value (DomNode 0)], next_handle = 1, released = [], round_trips = 0,
      calls_left = None\<rparr>"

definition example_queryAll :: raw_fn where
  "example_queryAll element selector =
     Inr (IterableObj ([DomNode 1, DomNode 2, DomNode 3] @- sconst Undefined))"

definition example_queryOne :: raw_fn where
  "example_queryOne element selector =
     Inr (Value (if selector = ''#found'' then DomNode 1 else Null))"

text \<open>
  The example page with an execution context that is destroyed after \<open>n\<close> more round
  trips.
\<close>

definition detaching_world :: "nat \<Rightarrow> world" where
  "detaching_world n = example_world\<lparr>calls_left := Some n\<rparr>"

section \<open>Strings\<close>

lemma is_letter_slash: "\<not> is_letter CHR ''/''"
  by (simp add: is_letter_def)

lemma indexOf_append: "c \<notin> set n \<Longrightarrow> indexOf (n @ c # r) c = int (length n)"
  by (induction n) (auto simp: Let_def)

lemma slice_prefix: "slice (n @ r) 0 (int (length n)) = n"
  by (simp add: slice_def clamp_index_def)

lemma slice_from_suffix: "slice_from (n @ c # r) (int (length n) + 1) = r"
  by (simp add: slice_from_def slice_def clamp_index_def nat_add_distrib)

text \<open>
  The test \<^verbatim>\<open>/^[a-zA-Z]+\//\<close> holds exactly for a valid name followed by a slash.
\<close>

lemma hasCustomQueryHandler_iff:
  "hasCustomQueryHandler s \<longleftrightarrow> (\<exists>n r. isValidName n \<and> s = n @ CHR ''/'' # r)"
proof
  assume h: "hasCustomQueryHandler s"
  then obtain r where d: "dropWhile is_letter s = CHR ''/'' # r"
    by (auto simp: hasCustomQueryHandler_def split: list.splits)
  have "s = takeWhile is_letter s @ CHR ''/'' # r"
    using d takeWhile_dropWhile_id[of is_letter s] by simp
  moreover have "isValidName (takeWhile is_letter s)"
    using h by (auto simp: hasCustomQueryHandler_def isValidName_def list_all_iff dest: set_takeWhileD)
  ultimately show "\<exists>n r. isValidName n \<and> s = n @ CHR ''/'' # r" by blast
next
  assume "\<exists>n r. isValidName n \<and> s = n @ CHR ''/'' # r"
  then obtain n r where v: "isValidName n" and s: "s = n @ CHR ''/'' # r" by blast
  have a: "\<forall>x\<in>set n. is_letter x" using v by (simp add: isValidName_def list_all_iff)
  have "takeWhile is_letter s = n" "dropWhile is_letter s = CHR ''/'' # r"
    using a s is_letter_slash by (simp_all add: takeWhile_append2 dropWhile_append2)
  then show "hasCustomQueryHandler s"
    using v by (simp add: hasCustomQueryHandler_def isValidName_def)
qed

lemma valid_no_slash: "isValidName n \<Longrightarrow> CHR ''/'' \<notin> set n"
  using is_letter_slash by (auto simp: isValidName_def list_all_iff)

lemma split_unique:
  "c \<notin> set n \<Longrightarrow> c \<notin> set n' \<Longrightarrow> n @ c # r = n' @ c # r' \<Longrightarrow> n = n' \<and> r = r'"
proof (induction n arbitrary: n')
  case Nil
  then show ?case by (cases n') auto
next
  case (Cons a n)
  then show ?case by (cases n') auto
qed

section \<open>The Map operations\<close>

lemma map_get_set_same: "map_get (map_set m k v) k = Some v"
  by (induction m) (auto simp: map_get_def)

lemma map_set_absent: "map_get m k = None \<Longrightarrow> map_set m k v = m @ [(k, v)]"
  by (induction m) (auto simp: map_get_def split: if_splits)

lemma map_has_keys: "map_has m k \<longleftrightarrow> k \<in> set (map_keys m)"
  by (simp add: map_has_def map_keys_def map_of_eq_None_iff)

lemma map_get_None_keys: "map_get m k = None \<longleftrightarrow> k \<notin> set (map_keys m)"
  by (simp add: map_get_def map_keys_def map_of_eq_None_iff)

lemma map_keys_delete: "map_keys (map_delete m k) = filter (\<lambda>n. n \<noteq> k) (map_keys m)"
  by (induction m) (auto simp: map_keys_def map_delete_def)

lemma map_delete_absent: "k \<notin> set (map_keys m) \<Longrightarrow> map_delete m k = m"
  by (induction m) (auto simp: map_keys_def map_delete_def)

section \<open>The registry invariant\<close>

lemma builtin_has: "map_has (builtInHandlers env) name \<longleftrightarrow> name = ''aria'' \<or> name = ''pierce''"
  by (auto simp: map_has_def builtInHandlers_def)

lemma builtin_keys: "map fst (builtInHandlers env) = [''aria'', ''pierce'']"
  by (simp add: builtInHandlers_def)

lemma builtin_length: "length (builtInHandlers env) = 2"
  by (simp add: builtInHandlers_def)

lemma unregister_filter:
  "unregisterCustomQueryHandler env name q =
     (if map_has (builtInHandlers env) name then q else map_delete q name)"
  by (auto simp: unregisterCustomQueryHandler_def map_has_keys map_delete_absent)

lemma foldl_unregister:
  "\<forall>n\<in>set names. \<not> map_has (builtInHandlers env) n \<Longrightarrow>
   foldl (\<lambda>q name. unregisterCustomQueryHandler env name q) q names =
     filter (\<lambda>entry. fst entry \<notin> set names) q"
proof (induction names arbitrary: q)
  case Nil
  then show ?case by simp
next
  case (Cons n names)
  have "unregisterCustomQueryHandler env n q = filter (\<lambda>entry. fst entry \<noteq> n) q"
    using Cons.prems by (simp add: unregister_filter map_delete_def)
  then show ?case using Cons by (simp add: conj_commute)
qed

lemma clear_filter:
  "clearCustomQueryHandlers env q = filter (\<lambda>entry. map_has (builtInHandlers env) (fst entry)) q"
proof -
  let ?names = "customQueryHandlerNames env q"
  have "\<forall>n\<in>set ?names. \<not> map_has (builtInHandlers env) n"
    by (simp add: customQueryHandlerNames_def)
  then have "clearCustomQueryHandlers env q = filter (\<lambda>entry. fst entry \<notin> set ?names) q"
    unfolding clearCustomQueryHandlers_def by (rule foldl_unregister)
  also have "\<dots> = filter (\<lambda>entry. map_has (builtInHandlers env) (fst entry)) q"
    by (rule filter_cong) (auto simp: customQueryHandlerNames_def map_keys_def)
  finally show ?thesis .
qed

lemma inv_initial: "registry_inv env (initial_queryHandlers env)"
  by (simp add: registry_inv_def initial_queryHandlers_def builtInHandlers_def map_keys_def
      isValidName_def is_letter_def)

lemma inv_shape:
  "registry_inv env q \<Longrightarrow> \<exists>custom. q = builtInHandlers env @ custom"
  by (metis append_take_drop_id registry_inv_def)

lemma inv_register: 
  assumes "registry_inv env q" shows "registry_inv env (snd (registerCustomQueryHandler name handler q))"
proof (cases "map_get q name = None \<and> isValidName name")
  case True
  let ?v = "createInternalQueryHandler handler"
  have s: "map_set q name ?v = q @ [(name, ?v)]"
    using True by (simp add: map_set_absent)
  have n: "name \<notin> set (map_keys q)" using True by (simp add: map_get_None_keys)
  have "2 \<le> length q"
    using assms builtin_length[of env] by (metis registry_inv_def length_take min.cobounded1)
  then have "take 2 (q @ [(name, ?v)]) = take 2 q" by simp
  then have "registry_inv env (q @ [(name, ?v)])"
    using assms True n by (simp add: registry_inv_def map_keys_def)
  then show ?thesis using True s by (simp add: registerCustomQueryHandler_def)
next
  case False
  then show ?thesis using assms by (auto simp: registerCustomQueryHandler_def)
qed

lemma inv_unregister:
  assumes "registry_inv env q" shows "registry_inv env (unregisterCustomQueryHandler env name q)"
proof (cases "map_has (builtInHandlers env) name")
  case True
  then show ?thesis using assms by (simp add: unregister_filter)
next
  case False
  obtain custom where q: "q = builtInHandlers env @ custom" using assms inv_shape by blast
  have nm: "name \<noteq> ''aria''" "name \<noteq> ''pierce''"
    using False by (simp_all add: builtin_has)
  have "filter (\<lambda>entry. fst entry \<noteq> name) (builtInHandlers env) = builtInHandlers env"
    using nm by (auto simp: builtInHandlers_def)
  then have "map_delete q name = builtInHandlers env @ map_delete custom name"
    unfolding q by (simp add: map_delete_def)
  then have t: "take 2 (map_delete q name) = builtInHandlers env"
    using builtin_length[of env] by simp
  have "distinct (map_keys (map_delete q name))" "list_all isValidName (map_keys (map_delete q name))"
    using assms by (simp_all add: registry_inv_def map_keys_delete list_all_iff)
  then show ?thesis using t False by (simp add: unregister_filter registry_inv_def)
qed

lemma inv_clear:
  assumes "registry_inv env q" shows "clearCustomQueryHandlers env q = builtInHandlers env"
proof -
  obtain custom where q: "q = builtInHandlers env @ custom" using assms inv_shape by blast
  have d: "distinct (map fst (builtInHandlers env) @ map fst custom)"
    using assms q by (simp add: registry_inv_def map_keys_def)
  have "\<forall>entry\<in>set custom. \<not> map_has (builtInHandlers env) (fst entry)"
    using d by (force simp: builtin_has builtin_keys)
  then have c: "filter (\<lambda>entry. map_has (builtInHandlers env) (fst entry)) custom = []"
    by (simp add: filter_empty_conv)
  have "\<forall>entry\<in>set (builtInHandlers env). map_has (builtInHandlers env) (fst entry)"
    by (simp add: builtin_has) (simp add: builtInHandlers_def)
  then have "filter (\<lambda>entry. map_has (builtInHandlers env) (fst entry)) (builtInHandlers env)
      = builtInHandlers env"
    by (simp add: filter_id_conv)
  then show ?thesis unfolding clear_filter q using c by simp
qed

lemma inv_perform: "registry_inv env q \<Longrightarrow> registry_inv env (perform env q c)"
  using inv_initial[of env]
  by (cases c) (simp_all add: inv_register inv_unregister inv_clear initial_queryHandlers_def)

lemma inv_foldl: "registry_inv env q \<Longrightarrow> registry_inv env (foldl (perform env) q calls)"
  by (induction calls arbitrary: q) (simp_all add: inv_perform)

lemma inv_after: "registry_inv env (after env calls)"
  unfolding after_def by (rule inv_foldl) (rule inv_initial)

lemma names_keys:
  "registry_inv env q \<Longrightarrow>
   set (map_keys q) = {''aria'', ''pierce''} \<union> set (customQueryHandlerNames env q)"
proof -
  assume a: "registry_inv env q"
  obtain custom where q: "q = builtInHandlers env @ custom" using a inv_shape by blast
  show ?thesis unfolding q
    by (auto simp: customQueryHandlerNames_def map_keys_def builtin_has builtin_keys)
qed

lemma names_perform:
  assumes "registry_inv env q"
  shows "customQueryHandlerNames env (perform env q c) =
         registration_order (customQueryHandlerNames env q) [c]"
proof (cases c)
  case (Register name handler)
  show ?thesis
  proof (cases "map_get q name = None \<and> isValidName name")
    case True
    then have n: "name \<notin> set (map_keys q)" by (simp add: map_get_None_keys)
    then have "name \<notin> set (customQueryHandlerNames env q)" "name \<noteq> ''aria''" "name \<noteq> ''pierce''"
      using names_keys[OF assms] by auto
    moreover have "map_set q name (createInternalQueryHandler handler)
        = q @ [(name, createInternalQueryHandler handler)]"
      using True by (simp add: map_set_absent)
    ultimately show ?thesis using True Register
      by (simp add: registerCustomQueryHandler_def customQueryHandlerNames_def map_keys_def builtin_has)
  next
    case False
    then have "\<not> (isValidName name \<and> name \<notin> set (customQueryHandlerNames env q)
        \<and> name \<notin> {''aria'', ''pierce''})"
      using names_keys[OF assms] by (auto simp: map_get_None_keys)
    then show ?thesis using False Register
      by (auto simp: registerCustomQueryHandler_def)
  qed
next
  case (Unregister name)
  show ?thesis
  proof (cases "map_has (builtInHandlers env) name")
    case True
    then have "name \<notin> set (customQueryHandlerNames env q)"
      by (simp add: customQueryHandlerNames_def)
    then have "filter (\<lambda>n. n \<noteq> name) (customQueryHandlerNames env q) = customQueryHandlerNames env q"
      by (auto simp: filter_id_conv)
    then show ?thesis using True Unregister by (simp add: unregister_filter)
  next
    case False
    then show ?thesis using Unregister
      by (simp add: unregister_filter customQueryHandlerNames_def map_keys_delete conj_commute)
  qed
next
  case Clear
  then show ?thesis using inv_clear[OF assms]
    by (simp add: customQueryHandlerNames_def map_keys_def builtin_has builtin_keys)
qed

lemma names_foldl:
  "registry_inv env q \<Longrightarrow>
   customQueryHandlerNames env (foldl (perform env) q calls) =
     registration_order (customQueryHandlerNames env q) calls"
proof (induction calls arbitrary: q)
  case Nil
  then show ?case by simp
next
  case (Cons c calls)
  have "customQueryHandlerNames env (foldl (perform env) (perform env q c) calls) =
        registration_order (customQueryHandlerNames env (perform env q c)) calls"
    using Cons.prems by (intro Cons.IH inv_perform)
  then show ?case using names_perform[OF Cons.prems, of c] by (cases c) simp_all
qed

section \<open>Steps of the bridge\<close>

lemma evaluateHandle_ok:
  assumes "calls_left w = None" "h \<notin> set (released w)" "objects w h = Some obj"
    "fn obj = Inr (res, obj')"
  shows "evaluateHandle h fn w =
     (Inr (next_handle w),
      w\<lparr>objects := (objects w)(h \<mapsto> obj', next_handle w \<mapsto> res),
        next_handle := Suc (next_handle w),
        round_trips := Suc (round_trips w)\<rparr>)"
  using assms by (simp add: evaluateHandle_def)

lemma wf_fresh: "wf_world w \<Longrightarrow> next_handle w \<notin> set (released w)"
  by (auto simp: wf_world_def)

lemma wf_count: "wf_world w \<Longrightarrow> count_list (released w) (next_handle w) = 0"
  by (simp add: wf_fresh)

lemma gen_next_resumed:
  "gen_state g \<noteq> Completed \<Longrightarrow> gen_next g w = loop_body g (resumed g w)"
  by (cases "gen_state g") (simp_all add: gen_next_def resumed_def)

lemma resumed_fields:
  "objects (resumed g w) = objects w" "next_handle (resumed g w) = next_handle w"
  "round_trips (resumed g w) = round_trips w" "calls_left (resumed g w) = calls_left w"
  by (cases "gen_state g"; simp add: resumed_def dispose_def)+

lemma resumed_inv:
  assumes "bridge_inv ih g w s"
  shows "wf_world (resumed g w)" "ih \<notin> set (released (resumed g w))"
  using assms by (auto simp: bridge_inv_def resumed_def dispose_def wf_world_def)

lemma released_resumed:
  "released (resumed g w) =
     (case gen_state g of SuspendedYield p e \<Rightarrow> released w @ [p] | _ \<Rightarrow> released w)"
  by (cases "gen_state g") (simp_all add: resumed_def dispose_def)

lemma loop_body_element:
  assumes "calls_left w = None" "gen_handle g \<notin> set (released w)"
    "objects w (gen_handle g) = Some (IteratorObj s)" "is_node (shd s)"
    "gen_handle g \<noteq> next_handle w"
  shows "loop_body g w =
     (Inr (Some (next_handle w)),
      g\<lparr>gen_state := SuspendedYield (next_handle w) (next_handle w)\<rparr>,
      w\<lparr>objects := (objects w)(gen_handle g \<mapsto> IteratorObj (stl s),
                               next_handle w \<mapsto> Value (shd s)),
        next_handle := Suc (next_handle w),
        round_trips := Suc (round_trips w)\<rparr>)"
  using assms by (simp add: loop_body_def evaluateHandle_ok next_value_def asElement_def)

lemma loop_body_other:
  assumes "calls_left w = None" "gen_handle g \<notin> set (released w)"
    "objects w (gen_handle g) = Some (IteratorObj s)" "\<not> is_node (shd s)"
    "gen_handle g \<noteq> next_handle w"
  shows "loop_body g w =
     (Inr None, g\<lparr>gen_state := Completed\<rparr>,
      w\<lparr>objects := (objects w)(gen_handle g \<mapsto> IteratorObj (stl s),
                               next_handle w \<mapsto> Value (shd s)),
        next_handle := Suc (next_handle w),
        round_trips := Suc (round_trips w),
        released := released w @ [next_handle w, gen_handle g]\<rparr>)"
  using assms
  by (simp add: loop_body_def evaluateHandle_ok next_value_def asElement_def dispose_def)

lemma yielded_0: "yielded 0 s = 0"
  by (simp add: yielded_def)

lemma yielded_Suc:
  "yielded (Suc m) s = (if is_node (shd s) then Suc (yielded m (stl s)) else 0)"
  by (simp add: yielded_def)

lemma yielded_le: "yielded m s \<le> m"
  unfolding yielded_def by (metis length_stake length_takeWhile_le)

lemma yielded_eq:
  assumes "\<forall>i<k. is_node (s !! i)" "\<not> is_node (s !! k)" "k < m"
  shows "yielded m s = k"
proof -
  have "takeWhile is_node (stake m s) = take k (stake m s)"
    using assms by (intro takeWhile_eq_take_P_nth) simp_all
  then show ?thesis using assms(3) by (simp add: yielded_def)
qed

lemma probes_0: "probes 0 s = 0"
  by (simp add: probes_def)

lemma probes_Suc:
  "probes (Suc m) s = (if is_node (shd s) then Suc (probes m (stl s)) else 1)"
  by (simp add: probes_def yielded_Suc)

lemma post_0: "bridge_inv ih g w s \<Longrightarrow> post ih g w s 0 g w"
  by (auto simp: post_def bridge_inv_def yielded_0 probes_0)

lemma post_stop:
  assumes inv: "bridge_inv ih g w s" and n: "\<not> is_node (shd s)"
    and w': "w' = (resumed g w)\<lparr>objects := (objects w)(ih \<mapsto> IteratorObj (stl s),
                               next_handle w \<mapsto> Value (shd s)),
        next_handle := Suc (next_handle w),
        round_trips := Suc (round_trips w),
        released := released (resumed g w) @ [next_handle w, ih]\<rparr>"
  shows "post ih g w s (Suc m) (g\<lparr>gen_state := Completed\<rparr>) w'"
proof -
  have f: "next_handle w \<notin> set (released w)" "ih \<notin> set (released w)" "ih \<noteq> next_handle w"
    using inv by (auto simp: bridge_inv_def wf_fresh)
  show ?thesis
    using inv n f unfolding post_def w'
    by (auto simp: yielded_Suc probes_Suc released_resumed bridge_inv_def
        split: generator_state.splits)
qed

lemma inv_yield:
  assumes inv: "bridge_inv ih g w s"
    and w1: "w1 = (resumed g w)\<lparr>objects := (objects w)(ih \<mapsto> IteratorObj (stl s),
                               next_handle w \<mapsto> Value (shd s)),
        next_handle := Suc (next_handle w),
        round_trips := Suc (round_trips w)\<rparr>"
    and g1: "g1 = g\<lparr>gen_state := SuspendedYield (next_handle w) (next_handle w)\<rparr>"
  shows "bridge_inv ih g1 w1 (stl s)"
proof -
  have "wf_world (resumed g w)" "ih \<notin> set (released (resumed g w))"
    using inv by (rule resumed_inv)+
  then show ?thesis
    using inv unfolding w1 g1 bridge_inv_def
    by (auto simp: wf_world_def resumed_fields less_Suc_eq)
qed

lemma post_yield:
  assumes inv: "bridge_inv ih g w s" and n: "is_node (shd s)"
    and w1: "w1 = (resumed g w)\<lparr>objects := (objects w)(ih \<mapsto> IteratorObj (stl s),
                               next_handle w \<mapsto> Value (shd s)),
        next_handle := Suc (next_handle w),
        round_trips := Suc (round_trips w)\<rparr>"
    and g1: "g1 = g\<lparr>gen_state := SuspendedYield (next_handle w) (next_handle w)\<rparr>"
    and p: "post ih g1 w1 (stl s) m g' w'"
  shows "post ih g w s (Suc m) g' w'"
proof -
  let ?n = "next_handle w"
  have f: "?n \<notin> set (released w)" "ih \<notin> set (released w)" "ih \<noteq> ?n" "ih < ?n"
    using inv by (auto simp: bridge_inv_def wf_fresh)
  have nw1: "next_handle w1 = Suc ?n" and rt: "round_trips w1 = Suc (round_trips w)"
    and ob: "objects w1 = (objects w)(ih \<mapsto> IteratorObj (stl s), ?n \<mapsto> Value (shd s))"
    and rl: "released w1 = released (resumed g w)"
    and gs: "gen_state g1 = SuspendedYield ?n ?n"
    unfolding w1 g1 by simp_all
  note p' = p[unfolded post_def nw1 rt gs]
  have first: "objects w' ?n = Some (Value (shd s))"
    using p' f ob by simp
  have firstc: "count_list (released w') ?n = (if m = 0 then 0 else 1)"
    using p' by simp
  have a: "\<forall>i<yielded (Suc m) s.
         objects w' (?n + i) = Some (Value (s !! i)) \<and>
         count_list (released w') (?n + i) = (if i + 2 \<le> Suc m then 1 else 0)"
  proof (intro allI impI)
    fix i assume i: "i < yielded (Suc m) s"
    show "objects w' (?n + i) = Some (Value (s !! i)) \<and>
         count_list (released w') (?n + i) = (if i + 2 \<le> Suc m then 1 else 0)"
    proof (cases i)
      case 0
      then show ?thesis using first firstc by auto
    next
      case (Suc j)
      then have "j < yielded m (stl s)" using i n by (simp add: yielded_Suc)
      then show ?thesis using p' Suc by simp
    qed
  qed
  have b: "objects w' ih = Some (IteratorObj (sdrop (probes (Suc m) s) s))"
    "round_trips w' = round_trips w + probes (Suc m) s"
    using p' n by (simp_all add: probes_Suc)
  have c: "yielded (Suc m) s < Suc m \<longrightarrow>
         gen_state g' = Completed \<and>
         objects w' (?n + yielded (Suc m) s) = Some (Value (s !! yielded (Suc m) s)) \<and>
         count_list (released w') (?n + yielded (Suc m) s) = 1 \<and>
         count_list (released w') ih = 1"
    using p' n by (simp add: yielded_Suc)
  have d: "yielded (Suc m) s = Suc m \<longrightarrow> count_list (released w') ih = 0"
    using p' n by (simp add: yielded_Suc)
  have frame: "\<forall>h<?n. h \<noteq> ih \<longrightarrow> count_list (released w') h = count_list (released w1) h"
    using p' by (auto simp: less_Suc_eq)
  have e: "\<forall>p. gen_state g = SuspendedYield p p \<longrightarrow>
         count_list (released w') p = (if Suc m = 0 then 0 else 1)"
  proof (intro allI impI)
    fix q assume q: "gen_state g = SuspendedYield q q"
    then have "q < ?n" "q \<noteq> ih" "q \<notin> set (released w)"
      using inv by (auto simp: bridge_inv_def)
    then show "count_list (released w') q = (if Suc m = 0 then 0 else 1)"
      using frame q by (simp add: rl released_resumed)
  qed
  have g: "\<forall>h<?n. h \<noteq> ih \<longrightarrow> objects w' h = objects w h"
    using p' ob by (auto simp: less_Suc_eq)
  have h: "\<forall>h<?n. h \<noteq> ih \<and> gen_state g \<noteq> SuspendedYield h h \<longrightarrow>
         count_list (released w') h = count_list (released w) h"
  proof (intro allI impI)
    fix h assume h: "h < ?n" "h \<noteq> ih \<and> gen_state g \<noteq> SuspendedYield h h"
    have "count_list (released (resumed g w)) h = count_list (released w) h"
      using h inv by (auto simp: released_resumed bridge_inv_def split: generator_state.splits)
    then show "count_list (released w') h = count_list (released w) h"
      using frame h by (simp add: rl)
  qed
  show ?thesis unfolding post_def using a b c d e g h by blast
qed

text \<open>
  Any number of pulls: the handles yielded are the next ones the world gives out, one
  for each leading node of the iterator.
\<close>

lemma pulls_bridge:
  "bridge_inv ih g w s \<Longrightarrow>
   \<exists>g' w'. pulls m g w = (Inr (map (\<lambda>i. next_handle w + i) [0..<yielded m s]), g', w') \<and>
           post ih g w s m g' w'"
proof (induction m arbitrary: g w s)
  case 0
  then show ?case by (simp add: yielded_0 post_0)
next
  case (Suc m)
  note inv = Suc.prems
  let ?wr = "resumed g w"
  let ?n = "next_handle w"
  have nc: "gen_state g \<noteq> Completed" using inv by (auto simp: bridge_inv_def)
  have pre: "calls_left ?wr = None" "gen_handle g \<notin> set (released ?wr)"
    "objects ?wr (gen_handle g) = Some (IteratorObj s)" "gen_handle g \<noteq> next_handle ?wr"
    "gen_handle g = ih"
    using inv resumed_inv(2)[OF inv] by (auto simp: bridge_inv_def resumed_fields)
  show ?case
  proof (cases "is_node (shd s)")
    case True
    let ?w1 = "?wr\<lparr>objects := (objects w)(ih \<mapsto> IteratorObj (stl s), ?n \<mapsto> Value (shd s)),
        next_handle := Suc ?n, round_trips := Suc (round_trips w)\<rparr>"
    let ?g1 = "g\<lparr>gen_state := SuspendedYield ?n ?n\<rparr>"
    have step: "gen_next g w = (Inr (Some ?n), ?g1, ?w1)"
      using loop_body_element[OF pre(1-3) True pre(4)] pre(5) nc
      by (simp add: gen_next_resumed resumed_fields)
    have inv1: "bridge_inv ih ?g1 ?w1 (stl s)"
      using inv by (rule inv_yield) simp_all
    obtain g' w' where
      r: "pulls m ?g1 ?w1 = (Inr (map (\<lambda>i. next_handle ?w1 + i) [0..<yielded m (stl s)]), g', w')"
      and p: "post ih ?g1 ?w1 (stl s) m g' w'"
      using Suc.IH[OF inv1] by blast
    have "post ih g w s (Suc m) g' w'"
      using inv True _ _ p by (rule post_yield) simp_all
    moreover have "map (\<lambda>i. ?n + i) [0..<yielded (Suc m) s] =
        ?n # map (\<lambda>i. Suc ?n + i) [0..<yielded m (stl s)]"
      using True by (simp add: yielded_Suc upt_rec[of 0] map_Suc_upt[symmetric] del: upt_Suc)
    ultimately show ?thesis using step r by simp
  next
    case False
    let ?w2 = "?wr\<lparr>objects := (objects w)(ih \<mapsto> IteratorObj (stl s), ?n \<mapsto> Value (shd s)),
        next_handle := Suc ?n, round_trips := Suc (round_trips w),
        released := released ?wr @ [?n, ih]\<rparr>"
    have step: "gen_next g w = (Inr None, g\<lparr>gen_state := Completed\<rparr>, ?w2)"
      using loop_body_other[OF pre(1-3) False pre(4)] pre(5) nc
      by (simp add: gen_next_resumed resumed_fields)
    have "post ih g w s (Suc m) (g\<lparr>gen_state := Completed\<rparr>) ?w2"
      using inv False by (rule post_stop) simp
    then show ?thesis using step False by (simp add: yielded_Suc)
  qed
qed

lemma internal_queryAll_ok:
  assumes "wf_world w" "calls_left w = None" "element \<notin> set (released w)"
    "objects w element = Some root" "queryAll_raw root selector = Inr (IterableObj s)"
    and w0: "w0 = w\<lparr>objects := (objects w)(element \<mapsto> root, next_handle w \<mapsto> IterableObj s,
                                        Suc (next_handle w) \<mapsto> IteratorObj s),
                   next_handle := Suc (Suc (next_handle w)),
                   round_trips := Suc (Suc (round_trips w)),
                   released := released w @ [next_handle w]\<rparr>"
  shows "internal_queryAll queryAll_raw element selector w =
           (Inr (generate (Suc (next_handle w))), w0)"
    and "bridge_inv (Suc (next_handle w)) (generate (Suc (next_handle w))) w0 s"
proof -
  let ?n = "next_handle w"
  let ?w1 = "w\<lparr>objects := (objects w)(element \<mapsto> root, ?n \<mapsto> IterableObj s),
        next_handle := Suc ?n, round_trips := Suc (round_trips w)\<rparr>"
  have c: "call_raw queryAll_raw selector root = Inr (IterableObj s, root)"
    using assms(5) by (simp add: call_raw_def)
  have e1: "evaluateHandle element (call_raw queryAll_raw selector) w = (Inr ?n, ?w1)"
    using assms(2,3,4) c by (simp add: evaluateHandle_ok)
  have f: "?n \<notin> set (released w)" using assms(1) by (rule wf_fresh)
  have e2: "evaluateHandle ?n get_iterator ?w1 =
      (Inr (Suc ?n),
       w\<lparr>objects := (objects w)(element \<mapsto> root, ?n \<mapsto> IterableObj s,
                                Suc ?n \<mapsto> IteratorObj s),
         next_handle := Suc (Suc ?n), round_trips := Suc (Suc (round_trips w))\<rparr>)"
    using assms(2) f by (simp add: evaluateHandle_def get_iterator_def)
  show "internal_queryAll queryAll_raw element selector w = (Inr (generate (Suc ?n)), w0)"
    unfolding internal_queryAll_def e1 by (simp add: e2 dispose_def w0)
  show "bridge_inv (Suc ?n) (generate (Suc ?n)) w0 s"
    using assms(1,2) f unfolding bridge_inv_def w0
    by (auto simp: generate_def wf_world_def less_Suc_eq)
qed

text \<open>
  A consumer that pulls until the sequence is done: the iterable handle, the iterator
  handle and every probe, those that were yielded included, are disposed exactly once.
\<close>

lemma exhaustion_disposes_each_handle_once:
  assumes "wf_world w" and "calls_left w = None" and "element \<notin> set (released w)"
    and "objects w element = Some root"
    and "queryAll_raw root selector = Inr (IterableObj s)"
    and "\<forall>i<k. is_node (s !! i)" and "\<not> is_node (s !! k)" and "k < m"
  shows "\<exists>g w0 hs g' w'.
     internal_queryAll queryAll_raw element selector w = (Inr g, w0) \<and>
     pulls m g w0 = (Inr hs, g', w') \<and> length hs = k \<and> gen_state g' = Completed \<and>
     (\<forall>h. next_handle w \<le> h \<and> h < next_handle w + k + 3 \<longrightarrow>
          count_list (released w') h = 1)"
proof -
  let ?n = "next_handle w"
  define w0 where "w0 = w\<lparr>objects := (objects w)(element \<mapsto> root, ?n \<mapsto> IterableObj s,
                                        Suc ?n \<mapsto> IteratorObj s),
                   next_handle := Suc (Suc ?n),
                   round_trips := Suc (Suc (round_trips w)),
                   released := released w @ [?n]\<rparr>"
  let ?g = "generate (Suc ?n)"
  note ok = internal_queryAll_ok [where w = w and element = element and root = root
      and queryAll_raw = queryAll_raw and selector = selector and s = s, OF assms(1-5) w0_def]
  have y: "yielded m s = k" using assms(6-8) by (rule yielded_eq)
  obtain g' w' where r: "pulls m ?g w0 = (Inr (map (\<lambda>i. next_handle w0 + i) [0..<k]), g', w')"
    and p: "post (Suc ?n) ?g w0 s m g' w'"
    using pulls_bridge[OF ok(2), of m] unfolding y by blast
  note p' = p[unfolded post_def y]
  have nw0: "next_handle w0 = ?n + 2" by (simp add: w0_def)
  have c0: "count_list (released w0) ?n = 1"
    using wf_count[OF assms(1)] by (simp add: w0_def)
  have "count_list (released w') ?n = count_list (released w0) ?n"
    using p' by (simp add: nw0 generate_def)
  then have a: "count_list (released w') ?n = 1" using c0 by simp
  have b: "count_list (released w') (Suc ?n) = 1" using p' assms(8) by simp
  have c: "\<forall>i<k. count_list (released w') (?n + 2 + i) = 1"
    using p' assms(8) by (auto simp: nw0)
  have d: "count_list (released w') (?n + 2 + k) = 1" using p' assms(8) by (simp add: nw0)
  have "count_list (released w') h = 1" if "?n \<le> h \<and> h < ?n + k + 3" for h
  proof -
    define j where "j = h - ?n"
    have h: "h = ?n + j" and j: "j < k + 3" using that unfolding j_def by linarith+
    consider "j = 0" | "j = 1" | "2 \<le> j \<and> j - 2 < k" | "j = k + 2"
      using j by linarith
    then show ?thesis
    proof cases
      case 1
      then show ?thesis using a h by simp
    next
      case 2
      then show ?thesis using b h by simp
    next
      case 3
      then have "count_list (released w') (?n + 2 + (j - 2)) = 1" using c by blast
      moreover have "?n + 2 + (j - 2) = h" using 3 h by linarith
      ultimately show ?thesis by simp
    next
      case 4
      then have "?n + 2 + k = h" using h by linarith
      then show ?thesis using d by simp
    qed
  qed
  moreover have "gen_state g' = Completed" using p' assms(8) by simp
  ultimately show ?thesis using ok(1) r by auto
qed

lemma example_world_ok:
  "wf_world example_world" "calls_left example_world = None"
  "0 \<notin> set (released example_world)"
  "objects example_world 0 = Some (Value (DomNode 0))"
  by (simp_all add: example_world_def wf_world_def)

section \<open>The adapter\<close>

text \<open>
  C8. The adapter mirrors capabilities: the internal handler has \<^verbatim>\<open>queryOne\<close> and
  \<^verbatim>\<open>waitFor\<close> exactly when the raw handler supplies \<^verbatim>\<open>queryOne\<close>, and has \<^verbatim>\<open>queryAll\<close> and
  \<^verbatim>\<open>queryAllArray\<close> exactly when the raw handler supplies \<^verbatim>\<open>queryAll\<close>; an omitted raw
  capability is an omitted internal one, not a stub.
\<close>

theorem createInternalQueryHandler_capabilities:
  "(queryOne (createInternalQueryHandler handler) \<noteq> None \<longleftrightarrow> raw_queryOne handler \<noteq> None) \<and>
   (waitFor (createInternalQueryHandler handler) \<noteq> None \<longleftrightarrow> raw_queryOne handler \<noteq> None) \<and>
   (queryAll (createInternalQueryHandler handler) \<noteq> None \<longleftrightarrow> raw_queryAll handler \<noteq> None) \<and>
   (queryAllArray (createInternalQueryHandler handler) \<noteq> None \<longleftrightarrow> raw_queryAll handler \<noteq> None)"
  by (cases "raw_queryOne handler"; cases "raw_queryAll handler")
    (simp_all add: createInternalQueryHandler_def Let_def)

text \<open>
  A handler with \<^verbatim>\<open>queryOne\<close> only.
\<close>

theorem createInternalQueryHandler_capabilities_witness:
  "queryOne (createInternalQueryHandler example_handler) \<noteq> None \<and>
   waitFor (createInternalQueryHandler example_handler) \<noteq> None \<and>
   queryAll (createInternalQueryHandler example_handler) = None \<and>
   queryAllArray (createInternalQueryHandler example_handler) = None"
  using createInternalQueryHandler_capabilities [of example_handler]
  by (simp add: example_handler_def)

text \<open>
  C3. Whatever the root and the selector, a handle returned by the adapted
  \<^verbatim>\<open>queryOne\<close> passes the element classification. When the raw function's result is an
  element, the new handle is returned, undisposed; when it is not (\<^verbatim>\<open>null\<close>, for one), the
  new handle is disposed, once, and \<^verbatim>\<open>null\<close> is returned.
\<close>

theorem internal_queryOne_element_or_null:
  "(\<forall>h w'. internal_queryOne queryOne_raw element selector w = (Inr (Some h), w') \<longrightarrow>
      asElement h w' = Some h) \<and>
   (wf_world w \<and> calls_left w = None \<and> element \<notin> set (released w) \<and>
    objects w element = Some root \<and> queryOne_raw root selector = Inr result \<longrightarrow>
      (\<exists>w'. internal_queryOne queryOne_raw element selector w =
               (Inr (if is_element result then Some (next_handle w) else None), w') \<and>
            objects w' (next_handle w) = Some result \<and>
            count_list (released w') (next_handle w) = (if is_element result then 0 else 1)))"
proof (intro conjI allI impI)
  fix h w'
  assume "internal_queryOne queryOne_raw element selector w = (Inr (Some h), w')"
  then show "asElement h w' = Some h"
    by (auto simp: internal_queryOne_def asElement_def split: prod.splits sum.splits option.splits if_splits)
next
  assume a: "wf_world w \<and> calls_left w = None \<and> element \<notin> set (released w) \<and>
    objects w element = Some root \<and> queryOne_raw root selector = Inr result"
  let ?h = "next_handle w"
  let ?w1 = "w\<lparr>objects := (objects w)(element \<mapsto> root, ?h \<mapsto> result),
        next_handle := Suc ?h, round_trips := Suc (round_trips w)\<rparr>"
  have c: "call_raw queryOne_raw selector root = Inr (result, root)"
    using a by (simp add: call_raw_def)
  have e: "evaluateHandle element (call_raw queryOne_raw selector) w = (Inr ?h, ?w1)"
    using a c by (simp add: evaluateHandle_ok)
  have el: "asElement ?h ?w1 = (if is_element result then Some ?h else None)"
    by (simp add: asElement_def)
  show "\<exists>w'. internal_queryOne queryOne_raw element selector w =
               (Inr (if is_element result then Some ?h else None), w') \<and>
            objects w' ?h = Some result \<and>
            count_list (released w') ?h = (if is_element result then 0 else 1)"
  proof (cases "is_element result")
    case True
    then have "internal_queryOne queryOne_raw element selector w = (Inr (Some ?h), ?w1)"
      using e el by (simp add: internal_queryOne_def)
    then show ?thesis using True a by (simp add: wf_count)
  next
    case False
    then have "internal_queryOne queryOne_raw element selector w = (Inr None, dispose ?h ?w1)"
      using e el by (simp add: internal_queryOne_def)
    then show ?thesis using False a by (simp add: dispose_def wf_count)
  qed
qed

text \<open>
  A selector that matches nothing, and one that matches a node.
\<close>

theorem internal_queryOne_element_or_null_witness:
  "wf_world example_world \<and> calls_left example_world = None \<and>
   0 \<notin> set (released example_world) \<and>
   objects example_world 0 = Some (Value (DomNode 0)) \<and>
   example_queryOne (Value (DomNode 0)) ''#missing'' = Inr (Value Null) \<and>
   (\<exists>w'. internal_queryOne example_queryOne 0 ''#missing'' example_world = (Inr None, w') \<and>
         objects w' 1 = Some (Value Null) \<and> count_list (released w') 1 = 1) \<and>
   example_queryOne (Value (DomNode 0)) ''#found'' = Inr (Value (DomNode 1)) \<and>
   (\<exists>w'. internal_queryOne example_queryOne 0 ''#found'' example_world = (Inr (Some 1), w') \<and>
         objects w' 1 = Some (Value (DomNode 1)) \<and> count_list (released w') 1 = 0 \<and>
         asElement 1 w' = Some 1)"
proof -
  have m: "example_queryOne (Value (DomNode 0)) ''#missing'' = Inr (Value Null)"
    and f: "example_queryOne (Value (DomNode 0)) ''#found'' = Inr (Value (DomNode 1))"
    by (simp_all add: example_queryOne_def)
  have n: "next_handle example_world = 1" by (simp add: example_world_def)
  note t1 = internal_queryOne_element_or_null [of example_queryOne 0 "''#missing''"
      example_world "Value (DomNode 0)" "Value Null"]
  note t2 = internal_queryOne_element_or_null [of example_queryOne 0 "''#found''"
      example_world "Value (DomNode 0)" "Value (DomNode 1)"]
  have 1: "\<exists>w'. internal_queryOne example_queryOne 0 ''#missing'' example_world = (Inr None, w') \<and>
         objects w' 1 = Some (Value Null) \<and> count_list (released w') 1 = 1"
    using t1 example_world_ok m n by simp
  have 2: "\<exists>w'. internal_queryOne example_queryOne 0 ''#found'' example_world = (Inr (Some 1), w') \<and>
         objects w' 1 = Some (Value (DomNode 1)) \<and> count_list (released w') 1 = 0 \<and>
         asElement 1 w' = Some 1"
    using t2 example_world_ok f n by auto
  show ?thesis using example_world_ok m f 1 2 by blast
qed

section \<open>The remote iterator bridge\<close>

text \<open>
  C1. For every iterable \<open>s\<close> the raw \<^verbatim>\<open>queryAll\<close> returns, the adapted \<^verbatim>\<open>queryAll\<close>
  returns a generator without having advanced the page iterator, and \<open>m\<close> pulls yield
  handles for the leading nodes among the first \<open>m\<close> values the iterator produces, in the
  iterator's order, each handle distinct and live when it is yielded. Each pull makes one
  \<^verbatim>\<open>evaluateHandle\<close> round trip and advances the iterator by one value, so nothing is
  fetched ahead. The sequence ends at the first value that is not a node: the generator
  completes, and the handle of that value is disposed, once.
\<close>

theorem queryAll_yields_in_iterator_order:
  assumes "wf_world w" and "calls_left w = None" and "element \<notin> set (released w)"
    and "objects w element = Some root"
    and "queryAll_raw root selector = Inr (IterableObj s)"
  shows "\<exists>g w0.
     internal_queryAll queryAll_raw element selector w = (Inr g, w0) \<and>
     objects w0 (gen_handle g) = Some (IteratorObj s) \<and>
     (\<forall>m. \<exists>hs g' w'.
        pulls m g w0 = (Inr hs, g', w') \<and>
        map (objects w') hs = map (\<lambda>v. Some (Value v)) (takeWhile is_node (stake m s)) \<and>
        distinct hs \<and>
        objects w' (gen_handle g) = Some (IteratorObj (sdrop (min m (Suc (length hs))) s)) \<and>
        round_trips w' = round_trips w0 + min m (Suc (length hs)) \<and>
        (length hs = m \<and> 0 < m \<longrightarrow> last hs \<notin> set (released w')) \<and>
        (length hs < m \<longrightarrow>
           gen_state g' = Completed \<and> \<not> is_node (s !! length hs) \<and>
           (\<exists>p. p \<notin> set hs \<and> objects w' p = Some (Value (s !! length hs)) \<and>
                count_list (released w') p = 1)))"
proof -
  define n where "n = next_handle w"
  define w0 where "w0 = w\<lparr>objects := (objects w)(element \<mapsto> root, n \<mapsto> IterableObj s,
                                        Suc n \<mapsto> IteratorObj s),
                   next_handle := Suc (Suc n),
                   round_trips := Suc (Suc (round_trips w)),
                   released := released w @ [n]\<rparr>"
  let ?g = "generate (Suc n)"
  have w0': "w0 = w\<lparr>objects := (objects w)(element \<mapsto> root, next_handle w \<mapsto> IterableObj s,
                                        Suc (next_handle w) \<mapsto> IteratorObj s),
                   next_handle := Suc (Suc (next_handle w)),
                   round_trips := Suc (Suc (round_trips w)),
                   released := released w @ [next_handle w]\<rparr>"
    unfolding w0_def n_def by (rule refl)
  note ok = internal_queryAll_ok [where w = w and element = element and root = root
      and queryAll_raw = queryAll_raw and selector = selector and s = s, OF assms w0']
  have q: "internal_queryAll queryAll_raw element selector w = (Inr ?g, w0)"
    and inv: "bridge_inv (Suc n) ?g w0 s"
    using ok unfolding n_def by simp_all
  have gh: "gen_handle ?g = Suc n" by (simp add: generate_def)
  have it: "objects w0 (gen_handle ?g) = Some (IteratorObj s)"
    using inv by (simp add: bridge_inv_def)
  have all: "\<exists>hs g' w'.
        pulls m ?g w0 = (Inr hs, g', w') \<and>
        map (objects w') hs = map (\<lambda>v. Some (Value v)) (takeWhile is_node (stake m s)) \<and>
        distinct hs \<and>
        objects w' (gen_handle ?g) = Some (IteratorObj (sdrop (min m (Suc (length hs))) s)) \<and>
        round_trips w' = round_trips w0 + min m (Suc (length hs)) \<and>
        (length hs = m \<and> 0 < m \<longrightarrow> last hs \<notin> set (released w')) \<and>
        (length hs < m \<longrightarrow>
           gen_state g' = Completed \<and> \<not> is_node (s !! length hs) \<and>
           (\<exists>p. p \<notin> set hs \<and> objects w' p = Some (Value (s !! length hs)) \<and>
                count_list (released w') p = 1))" for m
  proof -
    let ?k = "yielded m s"
    let ?hs = "map (\<lambda>i. next_handle w0 + i) [0..<?k]"
    obtain g' w' where r: "pulls m ?g w0 = (Inr ?hs, g', w')" and p: "post (Suc n) ?g w0 s m g' w'"
      using pulls_bridge[OF inv, of m] by blast
    note p' = p[unfolded post_def]
    have len: "length ?hs = ?k" by simp
    have tk: "takeWhile is_node (stake m s) = stake ?k s"
      using takeWhile_eq_take[of is_node "stake m s"] yielded_le[of m s]
      by (simp add: yielded_def take_stake min_def)
    have 1: "map (objects w') ?hs = map (\<lambda>v. Some (Value v)) (takeWhile is_node (stake m s))"
      unfolding tk using p' by (intro nth_equalityI) (simp_all add: stake_nth)
    have 2: "distinct ?hs" by (simp add: distinct_map inj_on_def)
    have 3: "objects w' (gen_handle ?g) = Some (IteratorObj (sdrop (min m (Suc ?k)) s))"
      "round_trips w' = round_trips w0 + min m (Suc ?k)"
      using p' by (simp_all add: gh probes_def)
    have 4: "?k = m \<and> 0 < m \<longrightarrow> last ?hs \<notin> set (released w')"
    proof
      assume a: "?k = m \<and> 0 < m"
      then have "m - 1 < ?k" "\<not> (m - 1) + 2 \<le> m" by simp_all
      moreover have "\<forall>i<?k. count_list (released w') (next_handle w0 + i) =
          (if i + 2 \<le> m then 1 else 0)"
        using p' by blast
      ultimately have "count_list (released w') (next_handle w0 + (m - 1)) = 0"
        by presburger
      moreover have "last ?hs = next_handle w0 + (m - 1)"
        using a by (simp add: last_map)
      ultimately show "last ?hs \<notin> set (released w')"
        by (simp add: count_list_0_iff)
    qed
    have 5: "?k < m \<longrightarrow>
           gen_state g' = Completed \<and> \<not> is_node (s !! ?k) \<and>
           (\<exists>p. p \<notin> set ?hs \<and> objects w' p = Some (Value (s !! ?k)) \<and>
                count_list (released w') p = 1)"
    proof
      assume a: "?k < m"
      have "\<not> is_node (stake m s ! ?k)"
        unfolding yielded_def using a
        by (intro nth_length_takeWhile) (simp add: yielded_def)
      then have "\<not> is_node (s !! ?k)" using a by (simp add: stake_nth)
      moreover have "next_handle w0 + ?k \<notin> set ?hs" by auto
      ultimately show "gen_state g' = Completed \<and> \<not> is_node (s !! ?k) \<and>
           (\<exists>p. p \<notin> set ?hs \<and> objects w' p = Some (Value (s !! ?k)) \<and>
                count_list (released w') p = 1)"
        using p' a by blast
    qed
    show ?thesis
      using r 1 2 3 4 5 by (intro exI[of _ ?hs] exI[of _ g'] exI[of _ w']) (simp only: len)
  qed
  show ?thesis using q it all by blast
qed

text \<open>
  Three nodes: two pulls yield the first two, and seven pulls yield all three and
  stop at the fourth probe.
\<close>

theorem queryAll_yields_in_iterator_order_witness:
  "wf_world example_world \<and> calls_left example_world = None \<and>
   0 \<notin> set (released example_world) \<and>
   objects example_world 0 = Some (Value (DomNode 0)) \<and>
   example_queryAll (Value (DomNode 0)) ''x'' =
     Inr (IterableObj ([DomNode 1, DomNode 2, DomNode 3] @- sconst Undefined)) \<and>
   (\<exists>g w0.
      internal_queryAll example_queryAll 0 ''x'' example_world = (Inr g, w0) \<and>
      (\<exists>hs g' w'.
         pulls 2 g w0 = (Inr hs, g', w') \<and>
         map (objects w') hs = [Some (Value (DomNode 1)), Some (Value (DomNode 2))] \<and>
         round_trips w' = round_trips w0 + 2 \<and> last hs \<notin> set (released w')) \<and>
      (\<exists>hs g' w'.
         pulls 7 g w0 = (Inr hs, g', w') \<and>
         map (objects w') hs =
           [Some (Value (DomNode 1)), Some (Value (DomNode 2)), Some (Value (DomNode 3))] \<and>
         round_trips w' = round_trips w0 + 4 \<and> gen_state g' = Completed))"
proof -
  let ?s = "[DomNode 1, DomNode 2, DomNode 3] @- sconst Undefined"
  have q: "example_queryAll (Value (DomNode 0)) ''x'' = Inr (IterableObj ?s)"
    by (simp add: example_queryAll_def)
  obtain g w0 where
    r: "internal_queryAll example_queryAll 0 ''x'' example_world = (Inr g, w0)"
    and a: "\<And>m. \<exists>hs g' w'.
        pulls m g w0 = (Inr hs, g', w') \<and>
        map (objects w') hs = map (\<lambda>v. Some (Value v)) (takeWhile is_node (stake m ?s)) \<and>
        distinct hs \<and>
        objects w' (gen_handle g) = Some (IteratorObj (sdrop (min m (Suc (length hs))) ?s)) \<and>
        round_trips w' = round_trips w0 + min m (Suc (length hs)) \<and>
        (length hs = m \<and> 0 < m \<longrightarrow> last hs \<notin> set (released w')) \<and>
        (length hs < m \<longrightarrow>
           gen_state g' = Completed \<and> \<not> is_node (?s !! length hs) \<and>
           (\<exists>p. p \<notin> set hs \<and> objects w' p = Some (Value (?s !! length hs)) \<and>
                count_list (released w') p = 1))"
    using queryAll_yields_in_iterator_order [where w = example_world and element = 0
        and root = "Value (DomNode 0)" and queryAll_raw = example_queryAll
        and selector = "''x''" and s = ?s, OF example_world_ok q]
    by blast
  have t2: "takeWhile is_node (stake 2 ?s) = [DomNode 1, DomNode 2]"
    and t7: "takeWhile is_node (stake 7 ?s) = [DomNode 1, DomNode 2, DomNode 3]"
    by (simp_all add: eval_nat_numeral)
  obtain hs g' w' where 2: "pulls 2 g w0 = (Inr hs, g', w')"
    "map (objects w') hs = map (\<lambda>v. Some (Value v)) (takeWhile is_node (stake 2 ?s))"
    "round_trips w' = round_trips w0 + min 2 (Suc (length hs))"
    "length hs = 2 \<and> 0 < (2::nat) \<longrightarrow> last hs \<notin> set (released w')"
    using a[of 2] by blast
  have l2: "length hs = 2" using 2(2) unfolding t2 by (metis length_map length_Cons list.size(3) numeral_2_eq_2)
  have p2: "\<exists>hs g' w'.
         pulls 2 g w0 = (Inr hs, g', w') \<and>
         map (objects w') hs = [Some (Value (DomNode 1)), Some (Value (DomNode 2))] \<and>
         round_trips w' = round_trips w0 + 2 \<and> last hs \<notin> set (released w')"
    using 2 l2 unfolding t2 by auto
  obtain hs7 g7 w7 where 7: "pulls 7 g w0 = (Inr hs7, g7, w7)"
    "map (objects w7) hs7 = map (\<lambda>v. Some (Value v)) (takeWhile is_node (stake 7 ?s))"
    "round_trips w7 = round_trips w0 + min 7 (Suc (length hs7))"
    "length hs7 < 7 \<longrightarrow> gen_state g7 = Completed"
    using a[of 7] by blast
  have "length (map (objects w7) hs7) = 3" unfolding 7(2) t7 by simp
  then have l7: "length hs7 = 3" by simp
  have p7: "\<exists>hs g' w'.
         pulls 7 g w0 = (Inr hs, g', w') \<and>
         map (objects w') hs =
           [Some (Value (DomNode 1)), Some (Value (DomNode 2)), Some (Value (DomNode 3))] \<and>
         round_trips w' = round_trips w0 + 4 \<and> gen_state g' = Completed"
    using 7 l7 unfolding t7 by auto
  have e: "\<exists>g w0.
      internal_queryAll example_queryAll 0 ''x'' example_world = (Inr g, w0) \<and>
      (\<exists>hs g' w'.
         pulls 2 g w0 = (Inr hs, g', w') \<and>
         map (objects w') hs = [Some (Value (DomNode 1)), Some (Value (DomNode 2))] \<and>
         round_trips w' = round_trips w0 + 2 \<and> last hs \<notin> set (released w')) \<and>
      (\<exists>hs g' w'.
         pulls 7 g w0 = (Inr hs, g', w') \<and>
         map (objects w') hs =
           [Some (Value (DomNode 1)), Some (Value (DomNode 2)), Some (Value (DomNode 3))] \<and>
         round_trips w' = round_trips w0 + 4 \<and> gen_state g' = Completed)"
    by (rule exI[of _ g], rule exI[of _ w0]) (intro conjI r p2 p7)
  show ?thesis by (intro conjI example_world_ok q e)
qed

text \<open>
  C2. Every intermediate handle of the bridge should be disposed exactly once on
  every exit path. The code does so when the sequence is read to its end, and not
  otherwise. On the example page the iterable is handle 1, the iterator handle 2 and
  the first probe handle 3. \<^verbatim>\<open>Iterable.first\<close> reads one element and closes the generator:
  the generator completes at its \<^verbatim>\<open>yield\<close>, and the iterator handle is never disposed.
  When the execution context is destroyed after the first round trip, the second one
  fails and the iterable handle, already acquired, is never disposed either.
\<close>

theorem abandoned_sequence_leaks_iterator_handle:
  "fst (internal_queryAll example_queryAll 0 ''x'' example_world) = Inr (generate 2) \<and>
   (let w0 = snd (internal_queryAll example_queryAll 0 ''x'' example_world);
        r = Iterable_first (generate 2) w0
    in released w0 = [1] \<and> fst r = Inr (Some 3) \<and>
       gen_state (fst (snd r)) = Completed \<and> released (snd (snd r)) = [1] \<and>
       2 \<notin> set (released (snd (snd r)))) \<and>
   (let r = internal_queryAll example_queryAll 0 ''x'' (detaching_world 1)
    in fst r = Inl (Error ''Execution context was destroyed'') \<and>
       next_handle (snd r) = 2 \<and> released (snd r) = [])"
  by (simp add: internal_queryAll_def evaluateHandle_def call_raw_def get_iterator_def
      example_queryAll_def example_world_def detaching_world_def dispose_def generate_def
      Iterable_first_def gen_next_def gen_return_def loop_body_def next_value_def asElement_def)

section \<open>Registration\<close>

text \<open>
  C4. After any history, registering a name that is present, built-in or custom,
  fails with the "already exists" error, and registering a name that does not match
  \<^verbatim>\<open>^[a-zA-Z]+$\<close> fails with the "may only contain" error; a registration that fails, for
  whatever reason, leaves the registry exactly as it was, so an earlier registration
  of that name stays intact.
\<close>

theorem register_failures_atomic:
  "(map_has (after env calls) name \<longrightarrow>
      registerCustomQueryHandler name handler (after env calls) =
        (Inl (Error (''A custom query handler named \"'' @ name @ ''\" already exists'')),
         after env calls)) \<and>
   (\<not> isValidName name \<longrightarrow>
      registerCustomQueryHandler name handler (after env calls) =
        (Inl (Error ''Custom query handler names may only contain [a-zA-Z]''),
         after env calls)) \<and>
   (\<forall>e q'. registerCustomQueryHandler name handler (after env calls) = (Inl e, q') \<longrightarrow>
      q' = after env calls)"
proof -
  let ?q = "after env calls"
  have "list_all isValidName (map_keys ?q)"
    using inv_after[of env calls] by (simp add: registry_inv_def)
  then have "\<not> isValidName name \<Longrightarrow> map_get ?q name = None"
    by (auto simp: map_get_None_keys list_all_iff)
  then show ?thesis
    by (auto simp: registerCustomQueryHandler_def map_has_def map_get_def)
qed

text \<open>
  A second registration of \<open>foo\<close>, and a registration of \<open>ab-c\<close>.
\<close>

theorem register_failures_atomic_witness:
  "map_has (after example_env [Register ''foo'' example_handler]) ''foo'' \<and>
   registerCustomQueryHandler ''foo'' \<lparr>raw_queryOne = None, raw_queryAll = None\<rparr>
       (after example_env [Register ''foo'' example_handler]) =
     (Inl (Error ''A custom query handler named \"foo\" already exists''),
      after example_env [Register ''foo'' example_handler]) \<and>
   \<not> isValidName ''ab-c'' \<and>
   registerCustomQueryHandler ''ab-c'' example_handler
       (after example_env [Register ''foo'' example_handler]) =
     (Inl (Error ''Custom query handler names may only contain [a-zA-Z]''),
      after example_env [Register ''foo'' example_handler])"
proof -
  have p: "map_has (after example_env [Register ''foo'' example_handler]) ''foo''"
    by (simp add: after_def initial_queryHandlers_def builtInHandlers_def
        registerCustomQueryHandler_def map_get_def map_has_def isValidName_def is_letter_def)
  have i: "\<not> isValidName ''ab-c''" by (simp add: isValidName_def is_letter_def)
  show ?thesis
    using p i
      register_failures_atomic [of example_env "[Register ''foo'' example_handler]" "''foo''"
        "\<lparr>raw_queryOne = None, raw_queryAll = None\<rparr>"]
      register_failures_atomic [of example_env "[Register ''foo'' example_handler]" "''ab-c''"
        example_handler]
    by simp
qed

text \<open>
  C5. For every valid name \<open>n\<close> that is not registered and every raw handler \<open>h\<close>,
  registering succeeds, and resolving \<open>n\<close> followed by a slash and any rest, \<open>x\<close> in
  particular, gives the handler adapted from \<open>h\<close> together with that rest.
\<close>

theorem register_then_resolve:
  assumes "isValidName n" and "\<not> map_has q n"
  shows "\<exists>q'. registerCustomQueryHandler n h q = (Inr (), q') \<and>
           getQueryHandlerAndSelector env (n @ ''/'' @ rest) q' =
             Inr \<lparr>updatedSelector = rest, queryHandler = createInternalQueryHandler h\<rparr>"
proof -
  let ?q' = "map_set q n (createInternalQueryHandler h)"
  have r: "registerCustomQueryHandler n h q = (Inr (), ?q')"
    using assms by (simp add: registerCustomQueryHandler_def map_has_def map_get_def)
  have "hasCustomQueryHandler (n @ CHR ''/'' # rest)"
    using assms(1) hasCustomQueryHandler_iff by blast
  moreover have "indexOf (n @ CHR ''/'' # rest) CHR ''/'' = int (length n)"
    using assms(1) by (simp add: indexOf_append valid_no_slash)
  ultimately have "getQueryHandlerAndSelector env (n @ CHR ''/'' # rest) ?q' =
      Inr \<lparr>updatedSelector = rest, queryHandler = createInternalQueryHandler h\<rparr>"
    by (simp add: getQueryHandlerAndSelector_def slice_prefix slice_from_suffix map_get_set_same)
  then show ?thesis using r by simp
qed

text \<open>
  Registering \<open>foo\<close> and resolving \<open>foo/x\<close>.
\<close>

theorem register_then_resolve_witness:
  "isValidName ''foo'' \<and> \<not> map_has (initial_queryHandlers example_env) ''foo'' \<and>
   (\<exists>q'. registerCustomQueryHandler ''foo'' example_handler (initial_queryHandlers example_env)
            = (Inr (), q') \<and>
          getQueryHandlerAndSelector example_env ''foo/x'' q' =
            Inr \<lparr>updatedSelector = ''x'',
                 queryHandler = createInternalQueryHandler example_handler\<rparr>)"
proof -
  have v: "isValidName ''foo''" by (simp add: isValidName_def is_letter_def)
  have a: "\<not> map_has (initial_queryHandlers example_env) ''foo''"
    by (simp add: initial_queryHandlers_def builtin_has)
  show ?thesis
    using v a register_then_resolve [OF v a, of example_handler example_env "''x''"] by simp
qed

text \<open>
  C9. After any history, a valid name that is not registered can be registered,
  removed, and registered again with another handler, which is then the one found under
  the name. A built-in name stays taken: removing it changes nothing, and registering
  it afterwards fails.
\<close>

theorem unregister_makes_name_reusable:
  "(isValidName n \<and> \<not> map_has (after env calls) n \<longrightarrow>
      (\<exists>q1 q3.
         registerCustomQueryHandler n h (after env calls) = (Inr (), q1) \<and>
         map_has q1 n \<and>
         \<not> map_has (unregisterCustomQueryHandler env n q1) n \<and>
         registerCustomQueryHandler n h' (unregisterCustomQueryHandler env n q1) = (Inr (), q3) \<and>
         map_get q3 n = Some (createInternalQueryHandler h'))) \<and>
   (map_has (builtInHandlers env) b \<longrightarrow>
      registerCustomQueryHandler b h (unregisterCustomQueryHandler env b (after env calls)) =
        (Inl (Error (''A custom query handler named \"'' @ b @ ''\" already exists'')),
         after env calls))"
proof (intro conjI impI)
  let ?q = "after env calls"
  assume a: "isValidName n \<and> \<not> map_has ?q n"
  have inv: "registry_inv env ?q" by (rule inv_after)
  let ?q1 = "map_set ?q n (createInternalQueryHandler h)"
  have absent: "n \<notin> set (map_keys ?q)" using a by (simp add: map_has_keys)
  then have nb: "\<not> map_has (builtInHandlers env) n"
    using names_keys[OF inv] by (auto simp: builtin_has)
  have r1: "registerCustomQueryHandler n h ?q = (Inr (), ?q1)"
    using a by (simp add: registerCustomQueryHandler_def map_has_def map_get_def)
  have q1: "?q1 = ?q @ [(n, createInternalQueryHandler h)]"
    using absent by (simp add: map_set_absent map_get_None_keys)
  have h1: "map_has ?q1 n" by (simp add: map_has_def map_get_set_same[unfolded map_get_def])
  have "map_delete ?q1 n = ?q"
    unfolding q1 using absent map_delete_absent[of n ?q] by (simp add: map_delete_def)
  then have u: "unregisterCustomQueryHandler env n ?q1 = ?q"
    using nb by (simp add: unregister_filter)
  let ?q3 = "map_set ?q n (createInternalQueryHandler h')"
  have r3: "registerCustomQueryHandler n h' ?q = (Inr (), ?q3)"
    using a by (simp add: registerCustomQueryHandler_def map_has_def map_get_def)
  show "\<exists>q1 q3.
         registerCustomQueryHandler n h ?q = (Inr (), q1) \<and>
         map_has q1 n \<and>
         \<not> map_has (unregisterCustomQueryHandler env n q1) n \<and>
         registerCustomQueryHandler n h' (unregisterCustomQueryHandler env n q1) = (Inr (), q3) \<and>
         map_get q3 n = Some (createInternalQueryHandler h')"
    using r1 h1 u a r3 map_get_set_same[of ?q n "createInternalQueryHandler h'"] by auto
next
  let ?q = "after env calls"
  assume b: "map_has (builtInHandlers env) b"
  have inv: "registry_inv env ?q" by (rule inv_after)
  have "b \<in> set (map_keys ?q)" using names_keys[OF inv] b by (auto simp: builtin_has)
  then have "map_get ?q b \<noteq> None" by (simp add: map_get_None_keys)
  then show "registerCustomQueryHandler b h (unregisterCustomQueryHandler env b ?q) =
        (Inl (Error (''A custom query handler named \"'' @ b @ ''\" already exists'')), ?q)"
    using b by (simp add: unregister_filter registerCustomQueryHandler_def)
qed

text \<open>
  \<open>foo\<close> registered, removed and registered again; \<open>pierce\<close> refused.
\<close>

theorem unregister_makes_name_reusable_witness:
  "isValidName ''foo'' \<and> \<not> map_has (after example_env []) ''foo'' \<and>
   (\<exists>q1 q3.
      registerCustomQueryHandler ''foo'' example_handler (after example_env []) = (Inr (), q1) \<and>
      registerCustomQueryHandler ''foo'' \<lparr>raw_queryOne = None, raw_queryAll = None\<rparr>
          (unregisterCustomQueryHandler example_env ''foo'' q1) = (Inr (), q3) \<and>
      map_get q3 ''foo'' =
        Some (createInternalQueryHandler \<lparr>raw_queryOne = None, raw_queryAll = None\<rparr>)) \<and>
   map_has (builtInHandlers example_env) ''pierce'' \<and>
   registerCustomQueryHandler ''pierce'' example_handler
       (unregisterCustomQueryHandler example_env ''pierce'' (after example_env [])) =
     (Inl (Error ''A custom query handler named \"pierce\" already exists''),
      after example_env [])"
proof -
  note t = unregister_makes_name_reusable [of "''foo''" example_env "[]" example_handler
      "\<lparr>raw_queryOne = None, raw_queryAll = None\<rparr>" "''pierce''"]
  have v: "isValidName ''foo''" by (simp add: isValidName_def is_letter_def)
  have a: "\<not> map_has (after example_env []) ''foo''"
    by (simp add: after_def initial_queryHandlers_def builtin_has)
  have p: "map_has (builtInHandlers example_env) ''pierce''" by (simp add: builtin_has)
  show ?thesis using v a p t by auto
qed

text \<open>
  C7. Built-in names are never removed. After any history each built-in name maps to
  its built-in handler. Removing a built-in or an absent name changes nothing. The list
  of custom names never has a built-in name. Clearing keeps exactly the entries with a
  built-in name, so after any history it gives back the built-in registry, with no
  custom name left and both built-in names still resolvable.
\<close>

theorem builtins_never_removed:
  "(map_has (builtInHandlers env) b \<longrightarrow>
      map_get (after env calls) b = map_get (builtInHandlers env) b) \<and>
   (map_has (builtInHandlers env) name \<or> \<not> map_has q name \<longrightarrow>
      unregisterCustomQueryHandler env name q = q) \<and>
   (\<forall>n\<in>set (customQueryHandlerNames env q). \<not> map_has (builtInHandlers env) n) \<and>
   clearCustomQueryHandlers env q =
     filter (\<lambda>entry. map_has (builtInHandlers env) (fst entry)) q \<and>
   clearCustomQueryHandlers env (after env calls) = builtInHandlers env \<and>
   customQueryHandlerNames env (clearCustomQueryHandlers env (after env calls)) = [] \<and>
   getQueryHandlerAndSelector env (''aria/'' @ rest) (clearCustomQueryHandlers env (after env calls))
     = Inr \<lparr>updatedSelector = rest, queryHandler = ariaHandler env\<rparr> \<and>
   getQueryHandlerAndSelector env (''pierce/'' @ rest) (clearCustomQueryHandlers env (after env calls))
     = Inr \<lparr>updatedSelector = rest, queryHandler = pierceHandler env\<rparr>"
proof -
  let ?q = "after env calls"
  have inv: "registry_inv env ?q" by (rule inv_after)
  then obtain custom where q: "?q = builtInHandlers env @ custom" using inv_shape by blast
  have 1: "map_has (builtInHandlers env) b \<longrightarrow> map_get ?q b = map_get (builtInHandlers env) b"
    unfolding q by (auto simp: map_has_def map_get_def map_add_def split: option.splits)
  have 2: "map_has (builtInHandlers env) name \<or> \<not> map_has q name \<longrightarrow>
      unregisterCustomQueryHandler env name q = q"
    by (auto simp: unregisterCustomQueryHandler_def)
  have 3: "\<forall>n\<in>set (customQueryHandlerNames env q). \<not> map_has (builtInHandlers env) n"
    by (simp add: customQueryHandlerNames_def)
  have 5: "clearCustomQueryHandlers env ?q = builtInHandlers env"
    using inv by (rule inv_clear)
  have 6: "customQueryHandlerNames env (builtInHandlers env) = []"
    by (simp add: customQueryHandlerNames_def map_keys_def builtin_has builtin_keys)
  have ha: "hasCustomQueryHandler (''aria/'' @ rest)" "hasCustomQueryHandler (''pierce/'' @ rest)"
    by (simp_all add: hasCustomQueryHandler_def is_letter_def)
  have 7: "getQueryHandlerAndSelector env (''aria/'' @ rest) (builtInHandlers env)
     = Inr \<lparr>updatedSelector = rest, queryHandler = ariaHandler env\<rparr>"
    using ha slice_prefix[of "''aria''"] slice_from_suffix[of "''aria''"]
    by (simp add: getQueryHandlerAndSelector_def builtInHandlers_def map_get_def)
  have 8: "getQueryHandlerAndSelector env (''pierce/'' @ rest) (builtInHandlers env)
     = Inr \<lparr>updatedSelector = rest, queryHandler = pierceHandler env\<rparr>"
    using ha slice_prefix[of "''pierce''"] slice_from_suffix[of "''pierce''"]
    by (simp add: getQueryHandlerAndSelector_def builtInHandlers_def map_get_def)
  show ?thesis using 1 2 3 clear_filter[of env q] 5 6 7 8 by simp
qed

text \<open>
  A history that registers \<open>foo\<close>, tries to remove \<open>aria\<close>, and clears.
\<close>

theorem builtins_never_removed_witness:
  "map_has (builtInHandlers example_env) ''aria'' \<and>
   map_get (after example_env [Register ''foo'' example_handler, Unregister ''aria'', Clear])
       ''aria'' = Some (ariaHandler example_env) \<and>
   \<not> map_has (initial_queryHandlers example_env) ''nope'' \<and>
   unregisterCustomQueryHandler example_env ''nope'' (initial_queryHandlers example_env) =
     initial_queryHandlers example_env \<and>
   clearCustomQueryHandlers example_env
       (after example_env [Register ''foo'' example_handler, Unregister ''aria'', Clear]) =
     builtInHandlers example_env"
proof -
  note t = builtins_never_removed [of example_env "''aria''"
      "[Register ''foo'' example_handler, Unregister ''aria'', Clear]" "''nope''"
      "initial_queryHandlers example_env" "''x''"]
  have a: "map_has (builtInHandlers example_env) ''aria''" by (simp add: builtin_has)
  have b: "\<not> map_has (initial_queryHandlers example_env) ''nope''"
    by (simp add: initial_queryHandlers_def builtin_has)
  have c: "map_get (builtInHandlers example_env) ''aria'' = Some (ariaHandler example_env)"
    by (simp add: builtInHandlers_def map_get_def)
  show ?thesis using a b c t by simp
qed

text \<open>
  C10. After any history, the list of custom names is the list of registered custom
  names in the order of their registration, with no built-in name.
\<close>

theorem customQueryHandlerNames_registration_order:
  "customQueryHandlerNames env (after env calls) = registration_order [] calls"
proof -
  have "customQueryHandlerNames env (initial_queryHandlers env) = []"
    by (simp add: customQueryHandlerNames_def initial_queryHandlers_def map_keys_def builtin_has
        builtin_keys)
  then show ?thesis
    unfolding after_def using names_foldl[OF inv_initial, of env calls] by simp
qed

text \<open>
  A rejected registration of \<open>aria\<close>, and \<open>alpha\<close> removed and registered again: it
  moves to the end.
\<close>

theorem customQueryHandlerNames_registration_order_witness:
  "customQueryHandlerNames example_env
     (after example_env
        [Register ''zeta'' example_handler, Register ''alpha'' example_handler,
         Register ''aria'' example_handler, Register ''mid'' example_handler,
         Unregister ''alpha'', Register ''alpha'' example_handler]) =
   [''zeta'', ''mid'', ''alpha'']"
  using customQueryHandlerNames_registration_order [of example_env
     "[Register ''zeta'' example_handler, Register ''alpha'' example_handler,
       Register ''aria'' example_handler, Register ''mid'' example_handler,
       Unregister ''alpha'', Register ''alpha'' example_handler]"]
  by (simp add: isValidName_def is_letter_def)

section \<open>Resolution\<close>

text \<open>
  C6. A selector that does not match \<^verbatim>\<open>^[a-zA-Z]+/\<close> resolves to the default handler
  with the selector unchanged, wherever else it has a slash. A selector that matches
  splits at its first slash: the part before it is a valid name with no slash in it, the
  part after it is the updated selector, returned with the handler registered under the
  name; when there is none, the error names the engine.
\<close>

theorem getQueryHandlerAndSelector_splits_at_first_slash:
  "(\<not> hasCustomQueryHandler selector \<longrightarrow>
      getQueryHandlerAndSelector env selector q =
        Inr \<lparr>updatedSelector = selector, queryHandler = defaultHandler env\<rparr>) \<and>
   (hasCustomQueryHandler selector \<longrightarrow>
      (\<exists>name rest.
         selector = name @ ''/'' @ rest \<and> isValidName name \<and> CHR ''/'' \<notin> set name \<and>
         getQueryHandlerAndSelector env selector q =
           (case map_get q name of
              None \<Rightarrow>
                Inl (Error (''Query set to use \"'' @ name @
                            ''\", but no query handler of that name was found''))
            | Some h \<Rightarrow> Inr \<lparr>updatedSelector = rest, queryHandler = h\<rparr>)))"
proof (intro conjI impI)
  assume "\<not> hasCustomQueryHandler selector"
  then show "getQueryHandlerAndSelector env selector q =
      Inr \<lparr>updatedSelector = selector, queryHandler = defaultHandler env\<rparr>"
    by (simp add: getQueryHandlerAndSelector_def)
next
  assume h: "hasCustomQueryHandler selector"
  then obtain name rest where v: "isValidName name" and s: "selector = name @ CHR ''/'' # rest"
    using hasCustomQueryHandler_iff by blast
  have n: "CHR ''/'' \<notin> set name" using v by (rule valid_no_slash)
  then have "indexOf selector CHR ''/'' = int (length name)"
    unfolding s by (rule indexOf_append)
  then have "getQueryHandlerAndSelector env selector q =
      (case map_get q name of
         None \<Rightarrow>
           Inl (Error (''Query set to use \"'' @ name @
                       ''\", but no query handler of that name was found''))
       | Some h \<Rightarrow> Inr \<lparr>updatedSelector = rest, queryHandler = h\<rparr>)"
    using h unfolding s
    by (simp add: getQueryHandlerAndSelector_def slice_prefix slice_from_suffix
        split: option.splits)
  then show "\<exists>name rest.
         selector = name @ ''/'' @ rest \<and> isValidName name \<and> CHR ''/'' \<notin> set name \<and>
         getQueryHandlerAndSelector env selector q =
           (case map_get q name of
              None \<Rightarrow>
                Inl (Error (''Query set to use \"'' @ name @
                            ''\", but no query handler of that name was found''))
            | Some h \<Rightarrow> Inr \<lparr>updatedSelector = rest, queryHandler = h\<rparr>)"
    using v s n by auto
qed

text \<open>
  A selector with a slash but no engine prefix, an unknown engine, and the built-in
  \<open>pierce\<close> with a further slash in the rest.
\<close>

theorem getQueryHandlerAndSelector_splits_at_first_slash_witness:
  "\<not> hasCustomQueryHandler ''div > a.b/c'' \<and>
   getQueryHandlerAndSelector example_env ''div > a.b/c'' (initial_queryHandlers example_env) =
     Inr \<lparr>updatedSelector = ''div > a.b/c'', queryHandler = defaultHandler example_env\<rparr> \<and>
   hasCustomQueryHandler ''foo/x/y'' \<and>
   getQueryHandlerAndSelector example_env ''foo/x/y'' (initial_queryHandlers example_env) =
     Inl (Error ''Query set to use \"foo\", but no query handler of that name was found'') \<and>
   hasCustomQueryHandler ''pierce/x/y'' \<and>
   getQueryHandlerAndSelector example_env ''pierce/x/y'' (initial_queryHandlers example_env) =
     Inr \<lparr>updatedSelector = ''x/y'', queryHandler = pierceHandler example_env\<rparr>"
proof -
  have a: "\<not> hasCustomQueryHandler ''div > a.b/c''"
    by (simp add: hasCustomQueryHandler_def is_letter_def)
  have b: "hasCustomQueryHandler ''foo/x/y''"
    by (simp add: hasCustomQueryHandler_def is_letter_def)
  have c: "hasCustomQueryHandler ''pierce/x/y''"
    by (simp add: hasCustomQueryHandler_def is_letter_def)
  note t = getQueryHandlerAndSelector_splits_at_first_slash
  have 1: "getQueryHandlerAndSelector example_env ''div > a.b/c'' (initial_queryHandlers example_env) =
     Inr \<lparr>updatedSelector = ''div > a.b/c'', queryHandler = defaultHandler example_env\<rparr>"
    using a t [of "''div > a.b/c''" example_env "initial_queryHandlers example_env"] by blast
  obtain name rest where f: "''foo/x/y'' = name @ ''/'' @ rest" "CHR ''/'' \<notin> set name"
    and r: "getQueryHandlerAndSelector example_env ''foo/x/y'' (initial_queryHandlers example_env) =
           (case map_get (initial_queryHandlers example_env) name of
              None \<Rightarrow>
                Inl (Error (''Query set to use \"'' @ name @
                            ''\", but no query handler of that name was found''))
            | Some h \<Rightarrow> Inr \<lparr>updatedSelector = rest, queryHandler = h\<rparr>)"
    using b t [of "''foo/x/y''" example_env "initial_queryHandlers example_env"] by blast
  have k: "CHR ''/'' \<notin> set ''foo''" by simp
  have e: "''foo'' @ CHR ''/'' # ''x/y'' = name @ CHR ''/'' # rest" using f(1) by simp
  have "name = ''foo''" using split_unique [OF k f(2) e] by simp
  then have 2: "getQueryHandlerAndSelector example_env ''foo/x/y'' (initial_queryHandlers example_env) =
     Inl (Error ''Query set to use \"foo\", but no query handler of that name was found'')"
    using r by (simp add: initial_queryHandlers_def builtInHandlers_def map_get_def)
  have 3: "getQueryHandlerAndSelector example_env ''pierce/x/y'' (initial_queryHandlers example_env) =
     Inr \<lparr>updatedSelector = ''x/y'', queryHandler = pierceHandler example_env\<rparr>"
    by (simp add: getQueryHandlerAndSelector_def c slice_def slice_from_def clamp_index_def
        initial_queryHandlers_def builtInHandlers_def map_get_def)
  show ?thesis using a b c 1 2 3 by blast
qed

end
